theory Spec2Isabelle
  imports Main "HOL-Library.Word" "HOL-Library.AList" "HOL-Library.List_Lexorder"
    "HOL-Library.Multiset"
begin

unbundle bit_operations_syntax

section \<open>Ledger records as loaded by \<open>json.loads\<close>\<close>

text \<open>
  Every dashboard script (\<open>db.py\<close>, \<open>E1.py\<close>, \<open>E2.py\<close>, \<open>E3.py\<close>) reads the ledger with
  \<open>[json.loads(line) for line in open(LEDGER_PATH)]\<close> and hands the list to its own
  \<open>verify_chain\<close>. A Python \<open>str\<close> is a sequence of Unicode code points, a \<open>dict\<close>
  keeps its keys in insertion order. A Python \<open>float\<close> is carried by the text that
  \<open>json.dumps\<close> emits for it (\<open>float.__repr__\<close>, or \<open>NaN\<close>, \<open>Infinity\<close>, \<open>-Infinity\<close>):
  the scripts never compute with the floats of a record, they only print them back.
\<close>

type_synonym pystr = "nat list"

datatype json =
    JNull
  | JBool bool
  | JInt int
  | JFloat string
  | JStr pystr
  | JArr "json list"
  | JObj "(pystr \<times> json) list"

type_synonym pydict = "(pystr \<times> json) list"

text \<open>A string literal of the scripts, as a Python \<open>str\<close>.\<close>

definition py :: "string \<Rightarrow> pystr" where
  "py s = map of_char s"

definition k_hash :: pystr where
  "k_hash = py ''hash''"

definition k_prev_hash :: pystr where
  "k_prev_hash = py ''prev_hash''"

text \<open>What \<open>json.loads\<close> guarantees of a \<open>dict\<close>: no key occurs twice.\<close>

definition is_dict :: "pydict \<Rightarrow> bool" where
  "is_dict d = distinct (map fst d)"

section \<open>\<open>json.dumps(obj, sort_keys=True, separators=(",", ":"))\<close>\<close>

definition hexdigits :: string where
  "hexdigits = ''0123456789abcdef''"

definition hexdigit :: "nat \<Rightarrow> char" where
  "hexdigit n = hexdigits ! (n mod 16)"

definition hex4 :: "nat \<Rightarrow> string" where
  "hex4 n = [hexdigit (n div 4096), hexdigit (n div 256), hexdigit (n div 16), hexdigit n]"

text \<open>
  \<open>ensure_ascii\<close> keeps its default \<open>True\<close>: \<open>py_encode_basestring_ascii\<close> leaves the
  printable ASCII characters alone, gives the quote, the backslash and five control
  characters their short escapes, and writes everything else as \<open>\uXXXX\<close>, a code point
  beyond the basic plane as a surrogate pair.
\<close>

definition escape_char :: "nat \<Rightarrow> string" where
  "escape_char c =
     (if c = 0x22 then [CHR 0x5C, CHR 0x22]
      else if c = 0x5C then [CHR 0x5C, CHR 0x5C]
      else if c = 0x0A then [CHR 0x5C, CHR ''n'']
      else if c = 0x0D then [CHR 0x5C, CHR ''r'']
      else if c = 0x09 then [CHR 0x5C, CHR ''t'']
      else if c = 0x0C then [CHR 0x5C, CHR ''f'']
      else if c = 0x08 then [CHR 0x5C, CHR ''b'']
      else if 0x20 \<le> c \<and> c \<le> 0x7E then [char_of c]
      else if c < 0x10000 then [CHR 0x5C, CHR ''u''] @ hex4 c
      else (let v = c - 0x10000;
                s1 = 0xD800 + (v div 1024) mod 1024;
                s2 = 0xDC00 + v mod 1024
            in [CHR 0x5C, CHR ''u''] @ hex4 s1 @ [CHR 0x5C, CHR ''u''] @ hex4 s2))"

definition encode_basestring_ascii :: "pystr \<Rightarrow> string" where
  "encode_basestring_ascii s = [CHR 0x22] @ concat (map escape_char s) @ [CHR 0x22]"

text \<open>\<open>int.__repr__\<close>: decimal digits, a minus sign for a negative number.\<close>

fun nat_repr :: "nat \<Rightarrow> string" where
  "nat_repr n = (if n < 10 then [hexdigit n] else nat_repr (n div 10) @ [hexdigit (n mod 10)])"

declare nat_repr.simps [simp del]

definition int_repr :: "int \<Rightarrow> string" where
  "int_repr i = (if i < 0 then CHR ''-'' # nat_repr (nat (- i)) else nat_repr (nat i))"

text \<open>\<open>separator.join(parts)\<close>\<close>

fun join :: "string \<Rightarrow> string list \<Rightarrow> string" where
  "join sep [] = []"
| "join sep [x] = x"
| "join sep (x # y # ys) = x @ sep @ join sep (y # ys)"

text \<open>
  The encoder proper. With \<open>sort_keys=True\<close> the items of every \<open>dict\<close>, nested ones
  included, are emitted in the order of their keys (Python compares \<open>str\<close> by code point,
  a proper prefix first); the item separator is \<open>,\<close> and the key separator \<open>:\<close>, with
  no space after either.
\<close>

fun dumps :: "json \<Rightarrow> string" where
  "dumps JNull = ''null''"
| "dumps (JBool b) = (if b then ''true'' else ''false'')"
| "dumps (JInt i) = int_repr i"
| "dumps (JFloat t) = t"
| "dumps (JStr s) = encode_basestring_ascii s"
| "dumps (JArr xs) = ''['' @ join '','' (map dumps xs) @ '']''"
| "dumps (JObj kvs) =
     ''{'' @ join '',''
        (map (\<lambda>(k, v). encode_basestring_ascii k @ '':'' @ dumps v) (sort_key fst kvs)) @ ''}''"

section \<open>\<open>hashlib.sha256(data).hexdigest()\<close>\<close>

text \<open>
  SHA-256 as FIPS 180-4 defines it, on 32-bit words: the message is padded with
  \<open>0x80\<close>, zero bytes and its length in bits as a 64-bit big-endian number, cut into
  blocks of sixteen words, and each block is compressed into the eight-word state.
\<close>

type_synonym u8 = "8 word"
type_synonym u32 = "32 word"

definition rotr :: "nat \<Rightarrow> u32 \<Rightarrow> u32" where
  "rotr n x = drop_bit n x OR push_bit (32 - n) x"

definition Ch :: "u32 \<Rightarrow> u32 \<Rightarrow> u32 \<Rightarrow> u32" where
  "Ch x y z = (x AND y) XOR (NOT x AND z)"

definition Maj :: "u32 \<Rightarrow> u32 \<Rightarrow> u32 \<Rightarrow> u32" where
  "Maj x y z = (x AND y) XOR (x AND z) XOR (y AND z)"

definition bsig0 :: "u32 \<Rightarrow> u32" where
  "bsig0 x = rotr 2 x XOR rotr 13 x XOR rotr 22 x"

definition bsig1 :: "u32 \<Rightarrow> u32" where
  "bsig1 x = rotr 6 x XOR rotr 11 x XOR rotr 25 x"

definition ssig0 :: "u32 \<Rightarrow> u32" where
  "ssig0 x = rotr 7 x XOR rotr 18 x XOR drop_bit 3 x"

definition ssig1 :: "u32 \<Rightarrow> u32" where
  "ssig1 x = rotr 17 x XOR rotr 19 x XOR drop_bit 10 x"

definition K256 :: "u32 list" where
  "K256 = [
   0x428A2F98, 0x71374491, 0xB5C0FBCF, 0xE9B5DBA5, 0x3956C25B, 0x59F111F1, 0x923F82A4, 0xAB1C5ED5,
   0xD807AA98, 0x12835B01, 0x243185BE, 0x550C7DC3, 0x72BE5D74, 0x80DEB1FE, 0x9BDC06A7, 0xC19BF174,
   0xE49B69C1, 0xEFBE4786, 0x0FC19DC6, 0x240CA1CC, 0x2DE92C6F, 0x4A7484AA, 0x5CB0A9DC, 0x76F988DA,
   0x983E5152, 0xA831C66D, 0xB00327C8, 0xBF597FC7, 0xC6E00BF3, 0xD5A79147, 0x06CA6351, 0x14292967,
   0x27B70A85, 0x2E1B2138, 0x4D2C6DFC, 0x53380D13, 0x650A7354, 0x766A0ABB, 0x81C2C92E, 0x92722C85,
   0xA2BFE8A1, 0xA81A664B, 0xC24B8B70, 0xC76C51A3, 0xD192E819, 0xD6990624, 0xF40E3585, 0x106AA070,
   0x19A4C116, 0x1E376C08, 0x2748774C, 0x34B0BCB5, 0x391C0CB3, 0x4ED8AA4A, 0x5B9CCA4F, 0x682E6FF3,
   0x748F82EE, 0x78A5636F, 0x84C87814, 0x8CC70208, 0x90BEFFFA, 0xA4506CEB, 0xBEF9A3F7, 0xC67178F2]"

record hstate =
  wa :: u32
  wb :: u32
  wc :: u32
  wd :: u32
  we :: u32
  wf :: u32
  wg :: u32
  wh :: u32

definition H256 :: hstate where
  "H256 = \<lparr>wa = 0x6A09E667, wb = 0xBB67AE85, wc = 0x3C6EF372, wd = 0xA54FF53A,
           we = 0x510E527F, wf = 0x9B05688C, wg = 0x1F83D9AB, wh = 0x5BE0CD19\<rparr>"

text \<open>
  The message schedule: \<open>win\<close> holds the last sixteen words, the oldest first, and
  \<open>schedule n win\<close> is the next \<open>n\<close> words.
\<close>

fun schedule :: "nat \<Rightarrow> u32 list \<Rightarrow> u32 list" where
  "schedule 0 win = []"
| "schedule (Suc n) win =
     (let w = ssig1 (win ! 14) + win ! 9 + ssig0 (win ! 1) + win ! 0
      in w # schedule n (tl win @ [w]))"

definition round1 :: "u32 \<times> u32 \<Rightarrow> hstate \<Rightarrow> hstate" where
  "round1 kw s =
     (let t1 = wh s + bsig1 (we s) + Ch (we s) (wf s) (wg s) + fst kw + snd kw;
          t2 = bsig0 (wa s) + Maj (wa s) (wb s) (wc s)
      in \<lparr>wa = t1 + t2, wb = wa s, wc = wb s, wd = wc s,
          we = wd s + t1, wf = we s, wg = wf s, wh = wg s\<rparr>)"

definition compress :: "hstate \<Rightarrow> u32 list \<Rightarrow> hstate" where
  "compress s blk =
     (let r = fold round1 (zip K256 (blk @ schedule 48 blk)) s
      in \<lparr>wa = wa s + wa r, wb = wb s + wb r, wc = wc s + wc r, wd = wd s + wd r,
          we = we s + we r, wf = wf s + wf r, wg = wg s + wg r, wh = wh s + wh r\<rparr>)"

fun be_words :: "u8 list \<Rightarrow> u32 list" where
  "be_words (a # b # c # d # rest) =
     (push_bit 24 (ucast a) OR push_bit 16 (ucast b) OR push_bit 8 (ucast c) OR ucast d)
       # be_words rest"
| "be_words _ = []"

definition pad :: "u8 list \<Rightarrow> u8 list" where
  "pad m = (let l = length m; k = (119 - l mod 64) mod 64;
                bits = (of_nat l :: 64 word) * 8
            in m @ [0x80] @ replicate k 0 @
               map (\<lambda>i. ucast (drop_bit (8 * i) bits)) [7, 6, 5, 4, 3, 2, 1, 0])"

fun blocks :: "nat \<Rightarrow> u32 list \<Rightarrow> hstate \<Rightarrow> hstate" where
  "blocks 0 ws s = s"
| "blocks (Suc n) ws s = blocks n (drop 16 ws) (compress s (take 16 ws))"

definition sha256 :: "u8 list \<Rightarrow> u32 list" where
  "sha256 m = (let ws = be_words (pad m); s = blocks (length ws div 16) ws H256
               in [wa s, wb s, wc s, wd s, we s, wf s, wg s, wh s])"

definition hex32 :: "u32 \<Rightarrow> string" where
  "hex32 w = map (\<lambda>i. hexdigit (unat (drop_bit (4 * i) w AND 15))) [7, 6, 5, 4, 3, 2, 1, 0]"

definition sha256_hexdigest :: "u8 list \<Rightarrow> string" where
  "sha256_hexdigest m = concat (map hex32 (sha256 m))"

text \<open>
  \<open>s.encode("utf-8")\<close> for a string of code points below 256: one byte below 128, two
  bytes from there on. Both strings the scripts encode, a hex digest (or the genesis
  sentinel) and the output of \<open>json.dumps\<close>, are ASCII.
\<close>

definition utf8_char :: "char \<Rightarrow> u8 list" where
  "utf8_char c = (let n = (of_char c :: nat) in
     if n < 128 then [of_nat n] else [of_nat (192 + n div 64), of_nat (128 + n mod 64)])"

definition utf8_encode :: "string \<Rightarrow> u8 list" where
  "utf8_encode s = concat (map utf8_char s)"

section \<open>The integrity check\<close>

datatype error = KeyError pystr

text \<open>\<open>d.pop(key)\<close> and \<open>d[key]\<close>: both raise \<open>KeyError\<close> on a missing key.\<close>

definition pop :: "pystr \<Rightarrow> pydict \<Rightarrow> error + json \<times> pydict" where
  "pop k d = (case map_of d k of None \<Rightarrow> Inl (KeyError k)
              | Some v \<Rightarrow> Inr (v, AList.delete k d))"

definition getitem :: "pydict \<Rightarrow> pystr \<Rightarrow> error + json" where
  "getitem d k = (case map_of d k of None \<Rightarrow> Inl (KeyError k) | Some v \<Rightarrow> Inr v)"

text \<open>\<open>"0"*64\<close>\<close>

definition genesis :: string where
  "genesis = replicate 64 CHR ''0''"

text \<open>
  \<open>hashlib.sha256((prev_hash + payload).encode("utf-8")).hexdigest()\<close>
\<close>

definition digest :: "string \<Rightarrow> string \<Rightarrow> string" where
  "digest prev_hash payload = sha256_hexdigest (utf8_encode (prev_hash @ payload))"

text \<open>
  The loop of \<open>verify_chain\<close> in \<open>db.py\<close> (\<open>E1.py\<close> and \<open>E2.py\<close> have the same loop under
  other variable names), from a given \<open>prev_hash\<close>. A Python \<open>str\<close> never equals a value
  of another type, so \<open>calc_hash != stored_hash\<close> holds whenever the stored value is not
  the string \<open>calc_hash\<close>. Where the loop goes on, \<open>stored_hash\<close> equals \<open>calc_hash\<close>: the
  assignment \<open>prev_hash = stored_hash\<close> passes \<open>calc_hash\<close> on.
\<close>

fun verify_from :: "string \<Rightarrow> pydict list \<Rightarrow> error + bool" where
  "verify_from prev_hash [] = Inr True"
| "verify_from prev_hash (rec # records) =
     (case pop k_hash rec of
        Inl e \<Rightarrow> Inl e
      | Inr (stored_hash, rec_copy) \<Rightarrow>
          (let payload = dumps (JObj rec_copy);
               calc_hash = digest prev_hash payload
           in if JStr (py calc_hash) \<noteq> stored_hash then Inr False
              else (case getitem rec_copy k_prev_hash of
                      Inl e \<Rightarrow> Inl e
                    | Inr p \<Rightarrow>
                        if p \<noteq> JStr (py prev_hash) then Inr False
                        else verify_from calc_hash records)))"

definition verify_chain :: "pydict list \<Rightarrow> error + bool" where
  "verify_chain records = verify_from genesis records"

text \<open>\<open>verify_chain\<close> of \<open>E3.py\<close>: the same loop without the comparison of \<open>prev_hash\<close>.\<close>

fun verify_from_E3 :: "string \<Rightarrow> pydict list \<Rightarrow> error + bool" where
  "verify_from_E3 prev_hash [] = Inr True"
| "verify_from_E3 prev_hash (rec # records) =
     (case pop k_hash rec of
        Inl e \<Rightarrow> Inl e
      | Inr (stored_hash, rec_copy) \<Rightarrow>
          (let payload = dumps (JObj rec_copy);
               new_hash = digest prev_hash payload
           in if JStr (py new_hash) \<noteq> stored_hash then Inr False
              else verify_from_E3 new_hash records))"

definition verify_chain_E3 :: "pydict list \<Rightarrow> error + bool" where
  "verify_chain_E3 records = verify_from_E3 genesis records"

section \<open>The chain invariants of the specification\<close>

text \<open>
  The text a stored value stands for, when it is a string; a stored hash that is not a
  string stands for no digest.
\<close>

fun str_of :: "json \<Rightarrow> string" where
  "str_of (JStr s) = map char_of s"
| "str_of _ = []"

definition stored_hash_str :: "pydict \<Rightarrow> string" where
  "stored_hash_str r = (case map_of r k_hash of Some v \<Rightarrow> str_of v | None \<Rightarrow> [])"

text \<open>
  \<open>expected_prev\<close> at position \<open>i\<close>: the genesis sentinel for the first record, the
  stored hash of the record before for every other one.
\<close>

fun expected_prev :: "pydict list \<Rightarrow> nat \<Rightarrow> string" where
  "expected_prev rs 0 = genesis"
| "expected_prev rs (Suc i) = stored_hash_str (rs ! i)"

text \<open>
  The two invariants of one record: its stored hash is the digest of \<open>prev\<close> followed by
  the canonical serialization of the record without its \<open>hash\<close> field, and its stored
  \<open>prev_hash\<close> is \<open>prev\<close>.
\<close>

definition record_ok :: "string \<Rightarrow> pydict \<Rightarrow> bool" where
  "record_ok prev r \<longleftrightarrow>
     map_of r k_hash = Some (JStr (py (digest prev (dumps (JObj (AList.delete k_hash r))))))
     \<and> map_of r k_prev_hash = Some (JStr (py prev))"

definition chain_invariants :: "pydict list \<Rightarrow> bool" where
  "chain_invariants rs \<longleftrightarrow> (\<forall>i < length rs. record_ok (expected_prev rs i) (rs ! i))"

text \<open>The same invariants, threaded along the list.\<close>

fun chain_from :: "string \<Rightarrow> pydict list \<Rightarrow> bool" where
  "chain_from prev [] = True"
| "chain_from prev (r # rs) = (record_ok prev r \<and> chain_from (stored_hash_str r) rs)"

text \<open>
  A ledger of one record that carries nothing but its two hash fields, and the body
  it is hashed from.
\<close>

definition first_body :: pydict where
  "first_body = [(k_prev_hash, JStr (py genesis))]"

definition first_record :: pydict where
  "first_record = first_body @ [(k_hash, JStr (py (digest genesis (dumps (JObj first_body)))))]"

section \<open>Appending to the ledger\<close>

text \<open>
  Modelled from the spec: \<open>Append\<close>. The producer that writes the ledger is not among the
  dashboard scripts; section 4.2 of the specification gives its contract. \<open>Append\<close> sets
  \<open>prev_hash\<close> to the hash of the current last record (the genesis sentinel for an empty
  ledger) and \<open>hash\<close> to the digest of \<open>prev_hash\<close> followed by the canonical
  serialization of the fields with \<open>prev_hash\<close>. An assignment to a key of a \<open>dict\<close>
  replaces the value in place or adds the key at the end.
\<close>

definition seal :: "string \<Rightarrow> pydict \<Rightarrow> pydict" where
  "seal ledger_tail_hash new_record_fields =
     (let body = AList.update k_prev_hash (JStr (py ledger_tail_hash)) new_record_fields;
          h = digest ledger_tail_hash (dumps (JObj body))
      in AList.update k_hash (JStr (py h)) body)"

text \<open>
  Modelled from the spec: the two failures of \<open>Append\<close>. Which fields are required and
  which values are in their domain is the producer's business: \<open>check\<close> stands for its
  validation and returns the error, if any.
\<close>

datatype append_error = ValidationError | SerializationError

definition Append ::
  "(pydict \<Rightarrow> append_error option) \<Rightarrow> string \<Rightarrow> pydict \<Rightarrow> append_error + pydict" where
  "Append check ledger_tail_hash new_record_fields =
     (case check new_record_fields of
        Some e \<Rightarrow> Inl e
      | None \<Rightarrow> Inr (seal ledger_tail_hash new_record_fields))"

text \<open>
  Modelled from the spec: a ledger built by sequential \<open>Append\<close> calls, each against the
  hash of the record appended before it.
\<close>

fun build_ledger ::
  "(pydict \<Rightarrow> append_error option) \<Rightarrow> string \<Rightarrow> pydict list \<Rightarrow> append_error + pydict list" where
  "build_ledger check tail [] = Inr []"
| "build_ledger check tail (new_fields # later) =
     (case Append check tail new_fields of
        Inl e \<Rightarrow> Inl e
      | Inr r \<Rightarrow>
          (case build_ledger check (stored_hash_str r) later of
             Inl e \<Rightarrow> Inl e
           | Inr rs \<Rightarrow> Inr (r # rs)))"

text \<open>The record of the concrete scenario of the specification, and a second one.\<close>

definition fields_A :: pydict where
  "fields_A =
     [(py ''decision_id'', JStr (py ''d1'')),
      (py ''user_id'', JStr (py ''u1'')),
      (py ''product_id'', JStr (py ''p1'')),
      (py ''product_category'', JStr (py ''gaming'')),
      (py ''predicted_probability'', JFloat ''0.82''),
      (py ''top_shap_features'', JObj [(py ''gaming_events'', JFloat ''0.31'')]),
      (py ''influential_event_ids'', JArr [JStr (py ''e1''), JStr (py ''e2'')])]"

definition fields_B :: pydict where
  "fields_B =
     [(py ''decision_id'', JStr (py ''d2'')),
      (py ''user_id'', JStr (py ''u1''))]"

definition record_A :: pydict where
  "record_A = seal genesis fields_A"

definition record_B :: pydict where
  "record_B = seal (stored_hash_str record_A) fields_B"

text \<open>
  A spliced record: hashed against the hash of \<open>record_A\<close>, as the chain expects, with a
  \<open>prev_hash\<close> field that names another predecessor.
\<close>

definition spliced_body :: pydict where
  "spliced_body = [(py ''decision_id'', JStr (py ''d2'')), (k_prev_hash, JStr (py ''spliced''))]"

definition spliced_record :: pydict where
  "spliced_record =
     spliced_body @
     [(k_hash, JStr (py (digest (stored_hash_str record_A) (dumps (JObj spliced_body)))))]"

definition spliced_ledger :: "pydict list" where
  "spliced_ledger = [record_A, spliced_record]"

section \<open>The verification result of the specification\<close>

text \<open>
  Modelled from the spec: \<open>VerifyChain\<close> as section 4.2 words it, with the result of
  section 6, \<open>{valid: bool, failedAt: optional(position, reason)}\<close>. At each record the
  recomputed hash is compared first, the stored \<open>prev_hash\<close> second; the first mismatch
  ends the replay and is reported with its position and the check that failed. A field
  that a record does not have matches nothing.
\<close>

datatype reason = HashMismatch | PrevHashMismatch

record verification_result =
  valid :: bool
  failedAt :: "(nat \<times> reason) option"

fun spec_replay :: "nat \<Rightarrow> string \<Rightarrow> pydict list \<Rightarrow> (nat \<times> reason) option" where
  "spec_replay pos expected [] = None"
| "spec_replay pos expected (r # rs) =
     (let calc = digest expected (dumps (JObj (AList.delete k_hash r)))
      in if map_of r k_hash \<noteq> Some (JStr (py calc)) then Some (pos, HashMismatch)
         else if map_of r k_prev_hash \<noteq> Some (JStr (py expected)) then Some (pos, PrevHashMismatch)
         else spec_replay (Suc pos) calc rs)"

definition spec_VerifyChain :: "pydict list \<Rightarrow> verification_result" where
  "spec_VerifyChain records =
     (let f = spec_replay 0 genesis records in \<lparr>valid = (f = None), failedAt = f\<rparr>)"

text \<open>
  \<open>verify_chain\<close> reads \<open>hash\<close> of every record it reaches and \<open>prev_hash\<close> once the
  hash matches: a record is readable for a check when it has the keys read up to that
  check, and \<open>missing_key\<close> is the first key it lacks otherwise.
\<close>

definition readable :: "reason \<Rightarrow> pydict \<Rightarrow> bool" where
  "readable why r \<longleftrightarrow>
     map_of r k_hash \<noteq> None \<and> (why = PrevHashMismatch \<longrightarrow> map_of r k_prev_hash \<noteq> None)"

definition missing_key :: "pydict \<Rightarrow> pystr" where
  "missing_key r = (if map_of r k_hash = None then k_hash else k_prev_hash)"

text \<open>Two ledgers of one record: one with a wrong hash, one linked to a wrong predecessor.\<close>

definition bad_hash_ledger :: "pydict list" where
  "bad_hash_ledger = [[(k_prev_hash, JStr (py genesis)), (k_hash, JStr (py ''forged''))]]"

definition bad_link_body :: pydict where
  "bad_link_body = [(k_prev_hash, JStr (py ''elsewhere''))]"

definition bad_link_record :: pydict where
  "bad_link_record =
     bad_link_body @ [(k_hash, JStr (py (digest genesis (dumps (JObj bad_link_body)))))]"

definition bad_link_ledger :: "pydict list" where
  "bad_link_ledger = [bad_link_record]"

section \<open>The integrity section of the dashboards\<close>

text \<open>
  What the page shows of the ledger: \<open>db.py\<close> (as \<open>E1.py\<close> and \<open>E2.py\<close>) stops with a
  warning when \<open>len(ledger_records) == 0\<close> and calls \<open>verify_chain\<close> only after that;
  \<open>E3.py\<close> has no such test.
\<close>

datatype shown = EmptyLedger | LedgerValid | LedgerInvalid

definition integrity_db :: "pydict list \<Rightarrow> error + shown" where
  "integrity_db ledger_records =
     (if length ledger_records = 0 then Inr EmptyLedger
      else (case verify_chain ledger_records of
              Inl e \<Rightarrow> Inl e
            | Inr chain_ok \<Rightarrow> Inr (if chain_ok then LedgerValid else LedgerInvalid)))"

text \<open>
  Before its integrity section \<open>E3.py\<close> evaluates
  \<open>sorted(set(r["user_id"] for r in ledger_records))\<close> for the sidebar. Record by
  record, \<open>r["user_id"]\<close> raises \<open>KeyError\<close> on a missing key and \<open>set\<close> raises
  \<open>TypeError\<close> on a value that cannot be hashed, a list or a dict. \<open>sorted\<close> then
  compares every element of the set with another one, and raises \<open>TypeError\<close> when the
  set holds values of two kinds: strings order among themselves, numbers (\<open>bool\<close> is
  one) among themselves, and \<open>None\<close> with nothing; equal values are one element of the
  set. The widgets and the data frame of the page between that line and the
  integrity section are the work of streamlit and pandas, not modelled here.
\<close>

datatype page_error = PageKeyError pystr | PageTypeError

fun hashable :: "json \<Rightarrow> bool" where
  "hashable (JArr xs) = False"
| "hashable (JObj kvs) = False"
| "hashable v = True"

fun user_ids :: "pydict list \<Rightarrow> page_error + json list" where
  "user_ids [] = Inr []"
| "user_ids (r # rs) =
     (case map_of r (py ''user_id'') of
        None \<Rightarrow> Inl (PageKeyError (py ''user_id''))
      | Some u \<Rightarrow>
          if \<not> hashable u then Inl PageTypeError
          else (case user_ids rs of Inl e \<Rightarrow> Inl e | Inr us \<Rightarrow> Inr (u # us)))"

datatype kind = StrKind | NumberKind | NoneKind

fun kind_of :: "json \<Rightarrow> kind" where
  "kind_of (JStr s) = StrKind"
| "kind_of JNull = NoneKind"
| "kind_of v = NumberKind"

fun sortable :: "json list \<Rightarrow> bool" where
  "sortable [] = True"
| "sortable (u # us) = list_all (\<lambda>v. kind_of v = kind_of u) us"

definition integrity_E3 :: "pydict list \<Rightarrow> page_error + shown" where
  "integrity_E3 ledger_records =
     (case user_ids ledger_records of
        Inl e \<Rightarrow> Inl e
      | Inr ids \<Rightarrow>
          if \<not> sortable ids then Inl PageTypeError
          else (case verify_chain_E3 ledger_records of
                  Inl (KeyError k) \<Rightarrow> Inl (PageKeyError k)
                | Inr ok \<Rightarrow> Inr (if ok then LedgerValid else LedgerInvalid)))"

text \<open>A ledger whose second record has no \<open>hash\<close> key.\<close>

definition no_hash_ledger :: "pydict list" where
  "no_hash_ledger = [record_A, fields_B]"

text \<open>The same two fields, inserted in either order.\<close>

definition ab_fields :: pydict where
  "ab_fields = [(py ''b'', JInt 2), (py ''a'', JArr [JBool True, JNull])]"

definition ba_fields :: pydict where
  "ba_fields = [(py ''a'', JArr [JBool True, JNull]), (py ''b'', JInt 2)]"

section \<open>Records up to insertion order\<close>

text \<open>
  Two values that hold the same data, whatever the order in which the keys of their
  objects, at any depth, were inserted: arrays agree element by element, objects have
  the same keys (each once) with values that agree, and everything else is equal.
\<close>

fun same_up_to_order :: "json \<Rightarrow> json \<Rightarrow> bool" where
  "same_up_to_order (JArr xs) (JArr ys) = list_all2 same_up_to_order xs ys"
| "same_up_to_order (JObj a) (JObj b) =
     (distinct (map fst a) \<and> distinct (map fst b) \<and> set (map fst a) = set (map fst b)
      \<and> (\<forall>(k, v) \<in> set a. \<forall>(k', w) \<in> set b. k = k' \<longrightarrow> same_up_to_order v w))"
| "same_up_to_order x y = (x = y)"

text \<open>One item of an object as \<open>json.dumps\<close> writes it: key, \<open>:\<close>, value.\<close>

definition item :: "pystr \<times> json \<Rightarrow> string" where
  "item kv = encode_basestring_ascii (fst kv) @ '':'' @ dumps (snd kv)"

text \<open>Two records that differ in the insertion order of their keys, at both levels.\<close>

definition nested_1 :: pydict where
  "nested_1 =
     [(py ''top_shap_features'', JObj [(py ''search'', JFloat ''0.31''), (py ''views'', JInt 2)]),
      (py ''decision_id'', JStr (py ''d1''))]"

definition nested_2 :: pydict where
  "nested_2 =
     [(py ''decision_id'', JStr (py ''d1'')),
      (py ''top_shap_features'', JObj [(py ''views'', JInt 2), (py ''search'', JFloat ''0.31'')])]"

section \<open>The records as mutable objects\<close>

text \<open>
  The records are \<open>dict\<close> objects that the caller goes on using after the check, and
  \<open>pop\<close> mutates the \<open>dict\<close> it is called on. Here the objects live in a heap, a
  record is a reference into it, \<open>rec.copy()\<close> allocates a new object with the same
  items and \<open>rec_copy.pop("hash")\<close> updates the heap at the copy.
\<close>

type_synonym ref = nat
type_synonym heap = "pydict list"

definition copy :: "ref \<Rightarrow> heap \<Rightarrow> ref \<times> heap" where
  "copy r h = (length h, h @ [h ! r])"

definition pop_at :: "ref \<Rightarrow> pystr \<Rightarrow> heap \<Rightarrow> (error + json) \<times> heap" where
  "pop_at c k h =
     (case map_of (h ! c) k of
        None \<Rightarrow> (Inl (KeyError k), h)
      | Some v \<Rightarrow> (Inr v, h[c := AList.delete k (h ! c)]))"

fun verify_heap :: "string \<Rightarrow> ref list \<Rightarrow> heap \<Rightarrow> (error + bool) \<times> heap" where
  "verify_heap prev_hash [] h = (Inr True, h)"
| "verify_heap prev_hash (rec # records) h =
     (let (rec_copy, h1) = copy rec h;
          (popped, h2) = pop_at rec_copy k_hash h1
      in case popped of
           Inl e \<Rightarrow> (Inl e, h2)
         | Inr stored_hash \<Rightarrow>
             (let payload = dumps (JObj (h2 ! rec_copy));
                  calc_hash = digest prev_hash payload
              in if JStr (py calc_hash) \<noteq> stored_hash then (Inr False, h2)
                 else (case getitem (h2 ! rec_copy) k_prev_hash of
                         Inl e \<Rightarrow> (Inl e, h2)
                       | Inr p \<Rightarrow>
                           if p \<noteq> JStr (py prev_hash) then (Inr False, h2)
                           else verify_heap calc_hash records h2)))"

definition verify_chain_heap :: "ref list \<Rightarrow> heap \<Rightarrow> (error + bool) \<times> heap" where
  "verify_chain_heap records h = verify_heap genesis records h"

text \<open>The loop of \<open>E3.py\<close> on the heap.\<close>

fun verify_heap_E3 :: "string \<Rightarrow> ref list \<Rightarrow> heap \<Rightarrow> (error + bool) \<times> heap" where
  "verify_heap_E3 prev_hash [] h = (Inr True, h)"
| "verify_heap_E3 prev_hash (rec # records) h =
     (let (rec_copy, h1) = copy rec h;
          (popped, h2) = pop_at rec_copy k_hash h1
      in case popped of
           Inl e \<Rightarrow> (Inl e, h2)
         | Inr stored_hash \<Rightarrow>
             (let payload = dumps (JObj (h2 ! rec_copy));
                  new_hash = digest prev_hash payload
              in if JStr (py new_hash) \<noteq> stored_hash then (Inr False, h2)
                 else verify_heap_E3 new_hash records h2))"

definition verify_chain_heap_E3 :: "ref list \<Rightarrow> heap \<Rightarrow> (error + bool) \<times> heap" where
  "verify_chain_heap_E3 records h = verify_heap_E3 genesis records h"

text \<open>The heap after one iteration's \<open>copy\<close> and \<open>pop\<close>.\<close>

definition after_pop :: "ref \<Rightarrow> heap \<Rightarrow> heap" where
  "after_pop r h = snd (pop_at (length h) k_hash (h @ [h ! r]))"

section \<open>Tampering with one field\<close>

text \<open>
  The text that is hashed for a record, from a given \<open>prev_hash\<close>; SHA-256 being free of
  collisions on a set of such texts; and a ledger with the field \<open>f\<close> of record \<open>i\<close> set
  to \<open>v\<close>.
\<close>

definition hash_input :: "string \<Rightarrow> pydict \<Rightarrow> string" where
  "hash_input prev r = prev @ dumps (JObj (AList.delete k_hash r))"

definition collision_free_on :: "string set \<Rightarrow> bool" where
  "collision_free_on S \<longleftrightarrow> inj_on (\<lambda>m. sha256_hexdigest (utf8_encode m)) S"

definition tamper :: "nat \<Rightarrow> pystr \<Rightarrow> json \<Rightarrow> pydict list \<Rightarrow> pydict list" where
  "tamper i f v rs = rs[i := AList.update f v (rs ! i)]"

text \<open>
  A ledger of two appended records, and the key of the field that is tampered with.
\<close>

definition w_key :: pystr where
  "w_key = py ''predicted_probability''"

definition w0_fields :: pydict where
  "w0_fields = [(py ''decision_id'', JStr (py ''d1''))]"

definition w1_fields :: pydict where
  "w1_fields = [(w_key, JFloat ''0.82'')]"

definition w0_record :: pydict where
  "w0_record = seal genesis w0_fields"

definition w1_record :: pydict where
  "w1_record = seal (stored_hash_str w0_record) w1_fields"

definition w_ledger :: "pydict list" where
  "w_ledger = [w0_record, w1_record]"

section \<open>Strings and keys\<close>

lemma py_inj [simp]: "py a = py b \<longleftrightarrow> a = b"
proof -
  have "inj (of_char :: char \<Rightarrow> nat)"
    by (rule injI) simp
  then show ?thesis
    unfolding py_def by (simp add: inj_map_eq_map)
qed

lemma char_of_py [simp]: "map char_of (py s) = s"
  by (simp add: py_def comp_def map_idI)

lemma keys_differ [simp]: "k_hash \<noteq> k_prev_hash" "k_prev_hash \<noteq> k_hash"
  by (simp_all add: k_hash_def k_prev_hash_def)

section \<open>Digests and single steps of the loop\<close>

lemma length_hex32 [simp]: "length (hex32 w) = 8"
  by (simp add: hex32_def)

lemma length_sha256_hexdigest [simp]: "length (sha256_hexdigest m) = 64"
  by (simp add: sha256_hexdigest_def sha256_def Let_def)

lemma length_digest [simp]: "length (digest prev payload) = 64"
  by (simp add: digest_def)

lemma digest_neq_length: "length s \<noteq> 64 \<Longrightarrow> digest a b \<noteq> s"
  by (metis length_digest)

lemma length_genesis [simp]: "length genesis = 64"
  by (simp add: genesis_def)

lemma hexdigit_in: "hexdigit n \<in> set hexdigits"
proof -
  have "n mod 16 < length hexdigits" by (simp add: hexdigits_def)
  then show ?thesis
    unfolding hexdigit_def by (rule nth_mem)
qed

lemma hex32_chars: "c \<in> set (hex32 w) \<Longrightarrow> c \<in> set hexdigits"
  unfolding hex32_def set_map using hexdigit_in by blast

lemma sha256_hexdigest_chars: "c \<in> set (sha256_hexdigest m) \<Longrightarrow> c \<in> set hexdigits"
  unfolding sha256_hexdigest_def set_concat set_map using hex32_chars by blast

lemma record_ok_step:
  "record_ok prev r \<Longrightarrow> verify_from prev (r # rs) = verify_from (stored_hash_str r) rs"
  by (simp add: pop_def getitem_def record_ok_def stored_hash_str_def Let_def)

section \<open>The verifier and the chain invariants\<close>

lemma verify_from_step:
  "verify_from prev (r # rs) = Inr True \<longleftrightarrow>
     record_ok prev r \<and> verify_from (stored_hash_str r) rs = Inr True"
  by (auto simp: pop_def getitem_def record_ok_def stored_hash_str_def Let_def
      split: option.splits)

lemma verify_from_chain: "verify_from prev rs = Inr True \<longleftrightarrow> chain_from prev rs"
proof (induction rs arbitrary: prev)
  case Nil
  show ?case by simp
next
  case (Cons r rs)
  show ?case
    unfolding verify_from_step by (simp add: Cons.IH)
qed

lemma chain_from_index:
  "chain_from prev rs \<longleftrightarrow>
     (\<forall>i < length rs. record_ok (if i = 0 then prev else stored_hash_str (rs ! (i - 1))) (rs ! i))"
proof (induction rs arbitrary: prev)
  case Nil
  show ?case by simp
next
  case (Cons r rs)
  have "(\<forall>i < length (r # rs). record_ok (if i = 0 then prev else stored_hash_str ((r # rs) ! (i - 1))) ((r # rs) ! i))
      \<longleftrightarrow> record_ok prev r \<and>
          (\<forall>j < length rs. record_ok (if j = 0 then stored_hash_str r else stored_hash_str (rs ! (j - 1))) (rs ! j))"
    (is "?L \<longleftrightarrow> ?A \<and> ?R")
  proof
    assume L: ?L
    have a: ?A using L [rule_format, of 0] by simp
    have r: ?R
    proof (intro allI impI)
      fix j assume "j < length rs"
      then show "record_ok (if j = 0 then stored_hash_str r else stored_hash_str (rs ! (j - 1))) (rs ! j)"
        using L [rule_format, of "Suc j"] by (cases j) simp_all
    qed
    from a r show "?A \<and> ?R" ..
  next
    assume AR: "?A \<and> ?R"
    show ?L
    proof (intro allI impI)
      fix i assume i: "i < length (r # rs)"
      show "record_ok (if i = 0 then prev else stored_hash_str ((r # rs) ! (i - 1))) ((r # rs) ! i)"
      proof (cases i)
        case 0
        then show ?thesis using AR by simp
      next
        case (Suc j)
        then have "j < length rs" using i by simp
        then show ?thesis
          using AR Suc by (cases j) auto
      qed
    qed
  qed
  then show ?case by (simp add: Cons.IH)
qed

lemma expected_prev_eq:
  "expected_prev rs i = (if i = 0 then genesis else stored_hash_str (rs ! (i - 1)))"
  by (cases i) simp_all

text \<open>
  C1: \<open>verify_chain\<close> returns \<open>True\<close> exactly when every record satisfies both chain
  invariants, with \<open>expected_prev\<close> threaded from the genesis sentinel: the stored hash is
  the SHA-256 digest of \<open>expected_prev\<close> followed by the canonical serialization of the
  record without its \<open>hash\<close> field, and the stored \<open>prev_hash\<close> equals \<open>expected_prev\<close>.
\<close>

theorem verify_chain_iff_invariants:
  "verify_chain rs = Inr True \<longleftrightarrow> chain_invariants rs"
  unfolding verify_chain_def chain_invariants_def verify_from_chain chain_from_index
    expected_prev_eq ..

theorem verify_chain_iff_invariants_witness:
  "chain_invariants [first_record] \<and> verify_chain [first_record] = Inr True"
proof -
  have "chain_invariants [first_record]"
    by (simp add: chain_invariants_def record_ok_def first_record_def first_body_def)
  then show ?thesis
    using verify_chain_iff_invariants [of "[first_record]"] by simp
qed

section \<open>Round trip\<close>

lemma record_ok_seal:
  assumes "k_hash \<notin> fst ` set flds"
  shows "record_ok tail (seal tail flds)"
proof -
  let ?body = "AList.update k_prev_hash (JStr (py tail)) flds"
  have keys: "k_hash \<notin> fst ` set ?body"
    using assms by (simp add: dom_update)
  have del: "AList.delete k_hash (seal tail flds) = ?body"
    using keys by (simp add: seal_def Let_def delete_update_same)
  have h: "map_of (seal tail flds) k_hash = Some (JStr (py (digest tail (dumps (JObj ?body)))))"
    by (simp add: seal_def Let_def update_conv')
  have p: "map_of (seal tail flds) k_prev_hash = Some (JStr (py tail))"
    by (simp add: seal_def Let_def update_conv')
  show ?thesis
    unfolding record_ok_def del using h p by simp
qed

lemma stored_hash_seal:
  "stored_hash_str (seal tail flds) =
     digest tail (dumps (JObj (AList.update k_prev_hash (JStr (py tail)) flds)))"
  by (simp add: stored_hash_str_def seal_def Let_def update_conv')

lemma build_ledger_chain:
  assumes "build_ledger check tail fss = Inr rs"
    and "\<forall>f \<in> set fss. k_hash \<notin> fst ` set f"
  shows "chain_from tail rs"
  using assms
proof (induction fss arbitrary: tail rs)
  case Nil
  then show ?case by simp
next
  case (Cons f fss)
  from Cons.prems(1) obtain rs' where
    ok: "check f = None" and
    rest: "build_ledger check (stored_hash_str (seal tail f)) fss = Inr rs'" and
    rs: "rs = seal tail f # rs'"
    by (auto simp: Append_def split: option.splits sum.splits)
  have "record_ok tail (seal tail f)"
    using Cons.prems(2) by (simp add: record_ok_seal)
  moreover have "chain_from (stored_hash_str (seal tail f)) rs'"
    using Cons.IH [OF rest] Cons.prems(2) by simp
  ultimately show ?case by (simp add: rs)
qed

text \<open>
  C8: a ledger built purely by sequential \<open>Append\<close> calls, from field sets that leave
  the \<open>hash\<close> key to \<open>Append\<close>, verifies: \<open>verify_chain\<close> returns \<open>True\<close>.
\<close>

theorem append_round_trip:
  assumes "build_ledger check genesis fss = Inr rs"
    and "\<forall>f \<in> set fss. k_hash \<notin> fst ` set f"
  shows "verify_chain rs = Inr True"
  using build_ledger_chain [OF assms] by (simp add: verify_chain_def verify_from_chain)

lemma fields_A_no_hash: "k_hash \<notin> fst ` set fields_A"
  by (simp add: fields_A_def k_hash_def)

lemma fields_B_no_hash: "k_hash \<notin> fst ` set fields_B"
  by (simp add: fields_B_def k_hash_def)

theorem append_round_trip_witness:
  "build_ledger (\<lambda>f. None) genesis [fields_A, fields_B] = Inr [record_A, record_B]
   \<and> k_hash \<notin> fst ` set fields_A \<and> k_hash \<notin> fst ` set fields_B
   \<and> verify_chain [record_A, record_B] = Inr True"
proof -
  have b: "build_ledger (\<lambda>f. None) genesis [fields_A, fields_B] = Inr [record_A, record_B]"
    by (simp add: Append_def record_A_def record_B_def)
  have k: "\<forall>f \<in> set [fields_A, fields_B]. k_hash \<notin> fst ` set f"
    using fields_A_no_hash fields_B_no_hash by simp
  have "verify_chain [record_A, record_B] = Inr True"
    by (rule append_round_trip [OF b k])
  with b fields_A_no_hash fields_B_no_hash show ?thesis by blast
qed

lemma record_A_ok: "record_ok genesis record_A"
  unfolding record_A_def by (rule record_ok_seal [OF fields_A_no_hash])

section \<open>The genesis record\<close>

text \<open>
  C6: the genesis sentinel is the string of 64 characters \<open>0\<close>, and a ledger of exactly one
  record whose \<open>prev_hash\<close> is the sentinel and whose \<open>hash\<close> is the digest of the sentinel
  followed by the record's canonical serialization verifies.
\<close>

theorem genesis_scenario:
  assumes "map_of r k_prev_hash = Some (JStr (py genesis))"
    and "map_of r k_hash =
           Some (JStr (py (digest genesis (dumps (JObj (AList.delete k_hash r))))))"
  shows "verify_chain [r] = Inr True \<and> genesis = replicate 64 CHR ''0''"
  using assms record_ok_step [of genesis r "[]"]
  by (simp add: verify_chain_def record_ok_def genesis_def)

theorem genesis_scenario_witness:
  "map_of record_A k_prev_hash = Some (JStr (py genesis))
   \<and> map_of record_A k_hash =
       Some (JStr (py (digest genesis (dumps (JObj (AList.delete k_hash record_A))))))
   \<and> verify_chain [record_A] = Inr True"
proof -
  have p: "map_of record_A k_prev_hash = Some (JStr (py genesis))"
    using record_A_ok by (simp add: record_ok_def)
  have h: "map_of record_A k_hash =
       Some (JStr (py (digest genesis (dumps (JObj (AList.delete k_hash record_A))))))"
    using record_A_ok by (simp add: record_ok_def)
  show ?thesis
    using p h genesis_scenario [OF p h] by simp
qed

section \<open>The loop along a ledger\<close>

lemma record_ok_step_E3:
  "record_ok prev r \<Longrightarrow> verify_from_E3 prev (r # rs) = verify_from_E3 (stored_hash_str r) rs"
  by (simp add: pop_def record_ok_def stored_hash_str_def Let_def)

lemma not_ok_step:
  "\<not> record_ok prev r \<Longrightarrow> verify_from prev (r # rs) = verify_from prev [r]"
  by (auto simp: pop_def getitem_def record_ok_def Let_def split: option.splits)

lemma not_ok_single: "\<not> record_ok prev r \<Longrightarrow> verify_from prev [r] \<noteq> Inr True"
  using verify_from_step [of prev r "[]"] by blast


declare verify_from.simps(2) [simp del] verify_from_E3.simps(2) [simp del]

lemma verify_from_append:
  "verify_from prev (xs @ ys) =
     (case verify_from prev xs of
        Inr True \<Rightarrow> verify_from (if xs = [] then prev else stored_hash_str (last xs)) ys
      | other \<Rightarrow> other)"
proof (induction xs arbitrary: prev)
  case Nil
  show ?case by simp
next
  case (Cons x xs)
  show ?case
  proof (cases "record_ok prev x")
    case True
    then show ?thesis
      by (simp add: record_ok_step Cons.IH split: sum.splits bool.splits)
  next
    case False
    have "verify_from prev ((x # xs) @ ys) = verify_from prev [x]"
      using not_ok_step [OF False] by simp
    moreover have "verify_from prev (x # xs) = verify_from prev [x]"
      by (rule not_ok_step [OF False])
    ultimately show ?thesis
      using not_ok_single [OF False] by (auto split: sum.splits bool.splits)
  qed
qed

lemma verify_from_E3_weaker:
  "verify_from prev rs = Inr True \<Longrightarrow> verify_from_E3 prev rs = Inr True"
proof (induction rs arbitrary: prev)
  case Nil
  show ?case by simp
next
  case (Cons r rs)
  from Cons.prems have ok: "record_ok prev r"
    and rest: "verify_from (stored_hash_str r) rs = Inr True"
    by (simp_all add: verify_from_step)
  show ?case
    using Cons.IH [OF rest] by (simp add: record_ok_step_E3 [OF ok])
qed

section \<open>Both checks are needed\<close>

text \<open>
  C2: checking only the recomputed hash is insufficient. On \<open>spliced_ledger\<close> the
  hash-only verifier of \<open>E3.py\<close> returns \<open>True\<close> and the two-check verifier of \<open>db.py\<close>
  returns \<open>False\<close>: the second record's stored hash is the digest computed from the hash
  of its true predecessor, and its stored \<open>prev_hash\<close> names another one.
\<close>

theorem hash_only_check_insufficient:
  "verify_chain_E3 spliced_ledger = Inr True \<and> verify_chain spliced_ledger = Inr False
   \<and> map_of spliced_record k_hash =
       Some (JStr (py (digest (stored_hash_str record_A)
                        (dumps (JObj (AList.delete k_hash spliced_record))))))
   \<and> map_of spliced_record k_prev_hash \<noteq> Some (JStr (py (stored_hash_str record_A)))"
proof -
  have del: "AList.delete k_hash spliced_record = spliced_body"
    by (simp add: spliced_record_def spliced_body_def k_hash_def k_prev_hash_def)
  have h: "map_of spliced_record k_hash =
       Some (JStr (py (digest (stored_hash_str record_A) (dumps (JObj spliced_body)))))"
    by (simp add: spliced_record_def spliced_body_def k_hash_def k_prev_hash_def)
  have p: "map_of spliced_record k_prev_hash = Some (JStr (py ''spliced''))"
    by (simp add: spliced_record_def spliced_body_def k_hash_def k_prev_hash_def)
  have sa: "stored_hash_str record_A =
      digest genesis (dumps (JObj (AList.update k_prev_hash (JStr (py genesis)) fields_A)))"
    by (simp add: record_A_def stored_hash_seal)
  have ne: "stored_hash_str record_A \<noteq> ''spliced''"
    unfolding sa by (rule digest_neq_length) simp
  have pb: "map_of spliced_body k_prev_hash = Some (JStr (py ''spliced''))"
    by (simp add: spliced_body_def k_hash_def k_prev_hash_def)
  have "verify_from (stored_hash_str record_A) [spliced_record] = Inr False"
    using ne by (simp add: verify_from.simps(2) pop_def getitem_def h del pb)
  then have db: "verify_chain spliced_ledger = Inr False"
    by (simp add: verify_chain_def spliced_ledger_def record_ok_step [OF record_A_ok])
  have "verify_from_E3 (stored_hash_str record_A) [spliced_record] = Inr True"
    by (simp add: verify_from_E3.simps(2) pop_def h del)
  then have e3: "verify_chain_E3 spliced_ledger = Inr True"
    by (simp add: verify_chain_E3_def spliced_ledger_def record_ok_step_E3 [OF record_A_ok])
  show ?thesis
    using db e3 h p ne by (simp add: del)
qed

section \<open>Records without a hash\<close>

lemma missing_hash_step:
  "map_of r k_hash = None \<Longrightarrow> verify_from prev (r # rs) = Inl (KeyError k_hash)"
  by (simp add: verify_from.simps(2) pop_def)

lemma chain_from_has_hash:
  "chain_from prev rs \<Longrightarrow> r \<in> set rs \<Longrightarrow> map_of r k_hash \<noteq> None"
proof (induction rs arbitrary: prev)
  case Nil
  then show ?case by simp
next
  case (Cons x xs)
  then show ?case
    by (auto simp: record_ok_def)
qed

lemma verify_from_before_missing_hash:
  assumes "map_of r k_hash = None"
  shows "verify_from prev (xs @ r # ys) =
     (case verify_from prev xs of
        Inr True \<Rightarrow> Inl (KeyError k_hash)
      | other \<Rightarrow> other)"
  by (simp add: verify_from_append missing_hash_step [OF assms] split: sum.splits bool.splits)

lemma verify_from_missing_hash:
  assumes j: "j < length rs" and none: "map_of (rs ! j) k_hash = None"
  shows "verify_from prev rs =
     (case verify_from prev (take j rs) of
        Inr True \<Rightarrow> Inl (KeyError k_hash)
      | other \<Rightarrow> other)"
proof -
  have "rs = take j rs @ rs ! j # drop (Suc j) rs"
    using j by (simp add: id_take_nth_drop)
  then have "verify_from prev rs = verify_from prev (take j rs @ rs ! j # drop (Suc j) rs)"
    by simp
  also have "\<dots> = (case verify_from prev (take j rs) of
        Inr True \<Rightarrow> Inl (KeyError k_hash)
      | other \<Rightarrow> other)"
    by (rule verify_from_before_missing_hash [OF none])
  finally show ?thesis .
qed

text \<open>
  C10: \<open>verify_chain\<close> pops \<open>hash\<close> unguarded. Where it returns \<open>True\<close>, every record has
  a \<open>hash\<close> key; a record without one, with no check before it that returns \<open>False\<close>,
  makes the call raise \<open>KeyError\<close>, and \<open>KeyError('hash')\<close> when the records before it
  all pass.
\<close>

theorem missing_hash_raises:
  "(verify_chain rs = Inr True \<longrightarrow> (\<forall>r \<in> set rs. map_of r k_hash \<noteq> None))
   \<and> (j < length rs \<and> map_of (rs ! j) k_hash = None \<and> verify_chain (take j rs) \<noteq> Inr False
        \<longrightarrow> (\<exists>k. verify_chain rs = Inl (KeyError k)))
   \<and> (j < length rs \<and> map_of (rs ! j) k_hash = None \<and> verify_chain (take j rs) = Inr True
        \<longrightarrow> verify_chain rs = Inl (KeyError k_hash))"
proof (intro conjI impI)
  assume "verify_chain rs = Inr True"
  then have "chain_from genesis rs"
    by (simp add: verify_chain_def verify_from_chain)
  then show "\<forall>r \<in> set rs. map_of r k_hash \<noteq> None"
    using chain_from_has_hash by blast
next
  assume a: "j < length rs \<and> map_of (rs ! j) k_hash = None \<and> verify_chain (take j rs) \<noteq> Inr False"
  then have eq: "verify_from genesis rs =
     (case verify_from genesis (take j rs) of
        Inr True \<Rightarrow> Inl (KeyError k_hash)
      | other \<Rightarrow> other)"
    using verify_from_missing_hash [of j rs genesis] by blast
  show "\<exists>k. verify_chain rs = Inl (KeyError k)"
  proof (cases "verify_from genesis (take j rs)")
    case (Inl e)
    obtain k where "e = KeyError k" by (cases e)
    then show ?thesis using eq Inl by (simp add: verify_chain_def)
  next
    case (Inr b)
    then have "b" using a by (simp add: verify_chain_def)
    then show ?thesis using eq Inr by (simp add: verify_chain_def)
  qed
next
  assume a: "j < length rs \<and> map_of (rs ! j) k_hash = None \<and> verify_chain (take j rs) = Inr True"
  then show "verify_chain rs = Inl (KeyError k_hash)"
    using verify_from_missing_hash [of j rs genesis] by (simp add: verify_chain_def)
qed

theorem missing_hash_raises_witness:
  "verify_chain [record_A] = Inr True \<and> map_of record_A k_hash \<noteq> None
   \<and> 1 < length no_hash_ledger \<and> map_of (no_hash_ledger ! 1) k_hash = None
   \<and> verify_chain (take 1 no_hash_ledger) = Inr True
   \<and> verify_chain (take 1 no_hash_ledger) \<noteq> Inr False
   \<and> verify_chain no_hash_ledger = Inl (KeyError k_hash)"
proof -
  have t: "verify_chain [record_A] = Inr True"
    by (simp add: verify_chain_def record_ok_step [OF record_A_ok])
  have l: "1 < length no_hash_ledger"
    by (simp add: no_hash_ledger_def)
  have n: "map_of (no_hash_ledger ! 1) k_hash = None"
    by (simp add: no_hash_ledger_def fields_B_def k_hash_def)
  have p: "verify_chain (take 1 no_hash_ledger) = Inr True"
    using t by (simp add: no_hash_ledger_def)
  have nf: "verify_chain (take 1 no_hash_ledger) \<noteq> Inr False"
    using p by simp
  have "\<forall>r \<in> set [record_A]. map_of r k_hash \<noteq> None"
    using missing_hash_raises [of "[record_A]" 0] t by blast
  then have a: "map_of record_A k_hash \<noteq> None"
    by simp
  have w: "verify_chain no_hash_ledger = Inl (KeyError k_hash)"
    using missing_hash_raises [of no_hash_ledger 1] l n p by blast
  from t a l n p nf w show ?thesis by blast
qed

section \<open>What a failed verification reports\<close>

lemma spec_replay_ok_step:
  "record_ok prev r \<Longrightarrow> spec_replay n prev (r # rs) = spec_replay (Suc n) (stored_hash_str r) rs"
  by (simp add: record_ok_def stored_hash_str_def Let_def)

lemma spec_replay_bad_step:
  "\<not> record_ok prev r \<Longrightarrow> \<exists>why. spec_replay n prev (r # rs) = Some (n, why)"
  by (auto simp: record_ok_def Let_def)

lemma offender_alone:
  assumes "\<not> record_ok prev r" and "spec_replay n prev (r # rs) = Some (q, why)"
  shows "q = n \<and> verify_from prev [r] =
           (if readable why r then Inr False else Inl (KeyError (missing_key r)))"
  using assms
  by (auto simp: verify_from.simps(2) pop_def getitem_def readable_def missing_key_def
      record_ok_def Let_def split: option.splits if_splits)

lemma spec_replay_Some:
  "spec_replay n prev rs = Some (q, why) \<Longrightarrow>
     \<exists>p. q = n + p \<and> p < length rs \<and> verify_from prev (take p rs) = Inr True
       \<and> verify_from prev (take (Suc p) rs) =
           (if readable why (rs ! p) then Inr False else Inl (KeyError (missing_key (rs ! p))))"
proof (induction rs arbitrary: prev n)
  case Nil
  then show ?case by simp
next
  case (Cons r rs)
  show ?case
  proof (cases "record_ok prev r")
    case True
    have "spec_replay (Suc n) (stored_hash_str r) rs = Some (q, why)"
      using Cons.prems by (simp only: spec_replay_ok_step [OF True])
    from Cons.IH [OF this] obtain p where
      q: "q = Suc n + p" and p: "p < length rs" and
      t: "verify_from (stored_hash_str r) (take p rs) = Inr True" and
      f: "verify_from (stored_hash_str r) (take (Suc p) rs) =
           (if readable why (rs ! p) then Inr False else Inl (KeyError (missing_key (rs ! p))))"
      by blast
    have "q = n + Suc p" using q by simp
    moreover have "Suc p < length (r # rs)" using p by simp
    moreover have "verify_from prev (take (Suc p) (r # rs)) = Inr True"
      using t by (simp add: record_ok_step [OF True])
    moreover have "verify_from prev (take (Suc (Suc p)) (r # rs)) =
        (if readable why ((r # rs) ! Suc p) then Inr False
         else Inl (KeyError (missing_key ((r # rs) ! Suc p))))"
      using f by (simp add: record_ok_step [OF True])
    ultimately show ?thesis by blast
  next
    case False
    from offender_alone [OF False Cons.prems]
    have "q = n + 0 \<and> 0 < length (r # rs) \<and> verify_from prev (take 0 (r # rs)) = Inr True
       \<and> verify_from prev (take (Suc 0) (r # rs)) =
           (if readable why ((r # rs) ! 0) then Inr False
            else Inl (KeyError (missing_key ((r # rs) ! 0))))"
      by simp
    then show ?thesis by blast
  qed
qed

lemma spec_None_verify: "spec_replay n prev rs = None \<Longrightarrow> verify_from prev rs = Inr True"
proof (induction rs arbitrary: prev n)
  case Nil
  show ?case by simp
next
  case (Cons r rs)
  have ok: "record_ok prev r"
    using Cons.prems spec_replay_bad_step [of prev r n rs] by fastforce
  have "spec_replay (Suc n) (stored_hash_str r) rs = None"
    using Cons.prems by (simp only: spec_replay_ok_step [OF ok])
  then show ?case
    using Cons.IH by (simp add: record_ok_step [OF ok])
qed

lemma verify_after_offender:
  assumes "verify_from prev (take (Suc p) rs) = res" and "res \<noteq> Inr True"
  shows "verify_from prev (take (Suc p) rs @ later) = res"
  using assms by (auto simp: verify_from_append split: sum.splits bool.splits)

text \<open>
  C4, amended: \<open>verify_chain\<close> returns the bare \<open>False\<close> exactly when the replay of the
  specification finds its first mismatch at a record that has the keys read up to the
  failing check, and \<open>True\<close> exactly when the replay finds none. The result carries no
  position and no reason. The loop stops at the first offending record \<open>p\<close>: the records
  before \<open>p\<close> pass, and whatever follows record \<open>p\<close> does not change the result, which is
  \<open>False\<close>, or \<open>KeyError\<close> where the record lacks the key that is read.
\<close>

theorem verify_chain_stops_at_first_offender:
  "(verify_chain rs = Inr False \<longleftrightarrow>
      (\<exists>p why. failedAt (spec_VerifyChain rs) = Some (p, why) \<and> readable why (rs ! p)))
   \<and> (verify_chain rs = Inr True \<longleftrightarrow> valid (spec_VerifyChain rs))
   \<and> (\<forall>p why. failedAt (spec_VerifyChain rs) = Some (p, why) \<longrightarrow>
         \<not> valid (spec_VerifyChain rs) \<and> p < length rs
         \<and> verify_chain (take p rs) = Inr True
         \<and> (readable why (rs ! p) \<longrightarrow>
               (\<forall>later. verify_chain (take (Suc p) rs @ later) = Inr False))
         \<and> (\<not> readable why (rs ! p) \<longrightarrow>
               (\<forall>later. verify_chain (take (Suc p) rs @ later)
                          = Inl (KeyError (missing_key (rs ! p))))))"
proof -
  have some: "verify_chain (take p rs) = Inr True
      \<and> p < length rs
      \<and> (\<forall>later. verify_chain (take (Suc p) rs @ later) =
           (if readable why (rs ! p) then Inr False else Inl (KeyError (missing_key (rs ! p)))))"
    if "spec_replay 0 genesis rs = Some (p, why)" for p why
  proof -
    from spec_replay_Some [OF that] have
      p: "p < length rs" and
      t: "verify_from genesis (take p rs) = Inr True" and
      f: "verify_from genesis (take (Suc p) rs) =
           (if readable why (rs ! p) then Inr False else Inl (KeyError (missing_key (rs ! p))))"
      by auto
    have "verify_from genesis (take (Suc p) rs @ later) =
           (if readable why (rs ! p) then Inr False else Inl (KeyError (missing_key (rs ! p))))"
      for later
      by (rule verify_after_offender [OF f]) simp
    then show ?thesis
      using p t by (simp add: verify_chain_def)
  qed
  have whole: "verify_chain rs =
      (if readable why (rs ! p) then Inr False else Inl (KeyError (missing_key (rs ! p))))"
    if "spec_replay 0 genesis rs = Some (p, why)" for p why
  proof -
    have "verify_chain (take (Suc p) rs @ drop (Suc p) rs) =
      (if readable why (rs ! p) then Inr False else Inl (KeyError (missing_key (rs ! p))))"
      using some [OF that] by blast
    then show ?thesis by simp
  qed
  have none: "verify_chain rs = Inr True" if "spec_replay 0 genesis rs = None"
    using spec_None_verify [OF that] by (simp add: verify_chain_def)
  have a: "verify_chain rs = Inr False \<longleftrightarrow>
      (\<exists>p why. failedAt (spec_VerifyChain rs) = Some (p, why) \<and> readable why (rs ! p))"
  proof (cases "spec_replay 0 genesis rs")
    case None
    then show ?thesis using none by (simp add: spec_VerifyChain_def)
  next
    case (Some pw)
    obtain p why where pw: "pw = (p, why)" by (cases pw)
    show ?thesis
      using whole [of p why] Some pw by (simp add: spec_VerifyChain_def)
  qed
  have b: "verify_chain rs = Inr True \<longleftrightarrow> valid (spec_VerifyChain rs)"
  proof (cases "spec_replay 0 genesis rs")
    case None
    then show ?thesis using none by (simp add: spec_VerifyChain_def)
  next
    case (Some pw)
    obtain p why where pw: "pw = (p, why)" by (cases pw)
    show ?thesis
      using whole [of p why] Some pw by (simp add: spec_VerifyChain_def)
  qed
  have c: "\<forall>p why. failedAt (spec_VerifyChain rs) = Some (p, why) \<longrightarrow>
         \<not> valid (spec_VerifyChain rs) \<and> p < length rs
         \<and> verify_chain (take p rs) = Inr True
         \<and> (readable why (rs ! p) \<longrightarrow>
               (\<forall>later. verify_chain (take (Suc p) rs @ later) = Inr False))
         \<and> (\<not> readable why (rs ! p) \<longrightarrow>
               (\<forall>later. verify_chain (take (Suc p) rs @ later)
                          = Inl (KeyError (missing_key (rs ! p)))))"
  proof (intro allI impI)
    fix p why
    assume "failedAt (spec_VerifyChain rs) = Some (p, why)"
    then have s: "spec_replay 0 genesis rs = Some (p, why)"
      by (simp add: spec_VerifyChain_def Let_def)
    show "\<not> valid (spec_VerifyChain rs) \<and> p < length rs
         \<and> verify_chain (take p rs) = Inr True
         \<and> (readable why (rs ! p) \<longrightarrow>
               (\<forall>later. verify_chain (take (Suc p) rs @ later) = Inr False))
         \<and> (\<not> readable why (rs ! p) \<longrightarrow>
               (\<forall>later. verify_chain (take (Suc p) rs @ later)
                          = Inl (KeyError (missing_key (rs ! p)))))"
      using some [OF s] s by (simp add: spec_VerifyChain_def)
  qed
  from a b c show ?thesis by blast
qed

lemma bad_hash_facts:
  "verify_chain bad_hash_ledger = Inr False"
  "failedAt (spec_VerifyChain bad_hash_ledger) = Some (0, HashMismatch)"
proof -
  have ne: "digest a b \<noteq> ''forged''" "''forged'' \<noteq> digest a b" for a b
    using digest_neq_length [of "''forged''" a b] by auto
  have h: "map_of (hd bad_hash_ledger) k_hash = Some (JStr (py ''forged''))"
    by (simp add: bad_hash_ledger_def)
  show "verify_chain bad_hash_ledger = Inr False"
    using ne by (simp add: verify_chain_def bad_hash_ledger_def verify_from.simps(2) pop_def)
  show "failedAt (spec_VerifyChain bad_hash_ledger) = Some (0, HashMismatch)"
    using ne by (simp add: spec_VerifyChain_def bad_hash_ledger_def Let_def)
qed

lemma bad_link_facts:
  "verify_chain bad_link_ledger = Inr False"
  "failedAt (spec_VerifyChain bad_link_ledger) = Some (0, PrevHashMismatch)"
proof -
  have del: "AList.delete k_hash bad_link_record = bad_link_body"
    by (simp add: bad_link_record_def bad_link_body_def)
  have h: "map_of bad_link_record k_hash =
      Some (JStr (py (digest genesis (dumps (JObj bad_link_body)))))"
    by (simp add: bad_link_record_def bad_link_body_def)
  have p: "map_of bad_link_record k_prev_hash = Some (JStr (py ''elsewhere''))"
    by (simp add: bad_link_record_def bad_link_body_def)
  have pb: "map_of bad_link_body k_prev_hash = Some (JStr (py ''elsewhere''))"
    by (simp add: bad_link_body_def)
  have "length genesis \<noteq> length ''elsewhere''"
    by simp
  then have ne: "genesis \<noteq> ''elsewhere''" "''elsewhere'' \<noteq> genesis"
    by metis+
  show "verify_chain bad_link_ledger = Inr False"
    using ne
    by (simp add: verify_chain_def bad_link_ledger_def verify_from.simps(2) pop_def getitem_def
        h del pb)
  show "failedAt (spec_VerifyChain bad_link_ledger) = Some (0, PrevHashMismatch)"
    using ne
    by (simp add: spec_VerifyChain_def bad_link_ledger_def Let_def h del p)
qed

text \<open>
  C4 as stated fails: \<open>verify_chain\<close> gives one and the same result for a ledger whose
  first record has a wrong hash and for one whose first record is linked to a wrong
  predecessor, so the result carries neither the check that failed nor a position.
\<close>

theorem verify_chain_no_diagnostics_counterexample:
  "verify_chain bad_hash_ledger = verify_chain bad_link_ledger
   \<and> failedAt (spec_VerifyChain bad_hash_ledger) = Some (0, HashMismatch)
   \<and> failedAt (spec_VerifyChain bad_link_ledger) = Some (0, PrevHashMismatch)"
  by (simp add: bad_hash_facts bad_link_facts)

lemma spliced_record_fields:
  "AList.delete k_hash spliced_record = spliced_body"
  "map_of spliced_record k_hash =
     Some (JStr (py (digest (stored_hash_str record_A) (dumps (JObj spliced_body)))))"
  "map_of spliced_record k_prev_hash = Some (JStr (py ''spliced''))"
  by (simp_all add: spliced_record_def spliced_body_def k_hash_def k_prev_hash_def)

lemma stored_hash_record_A_neq: "stored_hash_str record_A \<noteq> ''spliced''"
proof -
  have "stored_hash_str record_A =
      digest genesis (dumps (JObj (AList.update k_prev_hash (JStr (py genesis)) fields_A)))"
    by (simp add: record_A_def stored_hash_seal)
  then show ?thesis
    using digest_neq_length [of "''spliced''"] by simp
qed

lemma spec_replay_spliced:
  "spec_replay 0 genesis spliced_ledger = Some (1, PrevHashMismatch)"
proof -
  have "spec_replay (Suc 0) (stored_hash_str record_A) [spliced_record]
          = Some (1, PrevHashMismatch)"
    using stored_hash_record_A_neq by (simp add: spliced_record_fields Let_def)
  then show ?thesis
    by (simp only: spliced_ledger_def spec_replay_ok_step [OF record_A_ok])
qed

lemma spec_replay_no_hash:
  "spec_replay 0 genesis no_hash_ledger = Some (1, HashMismatch)"
proof -
  have "map_of fields_B k_hash = None"
    by (simp add: fields_B_def k_hash_def)
  then have "spec_replay (Suc 0) (stored_hash_str record_A) [fields_B] = Some (1, HashMismatch)"
    by (simp add: Let_def)
  then show ?thesis
    by (simp only: no_hash_ledger_def spec_replay_ok_step [OF record_A_ok])
qed

theorem verify_chain_stops_at_first_offender_witness:
  "failedAt (spec_VerifyChain spliced_ledger) = Some (1, PrevHashMismatch)
   \<and> readable PrevHashMismatch (spliced_ledger ! 1)
   \<and> verify_chain spliced_ledger = Inr False
   \<and> \<not> valid (spec_VerifyChain spliced_ledger)
   \<and> verify_chain (take 1 spliced_ledger) = Inr True
   \<and> verify_chain (take (Suc 1) spliced_ledger @ [fields_B]) = Inr False
   \<and> failedAt (spec_VerifyChain no_hash_ledger) = Some (1, HashMismatch)
   \<and> \<not> readable HashMismatch (no_hash_ledger ! 1)
   \<and> verify_chain (take (Suc 1) no_hash_ledger @ [fields_B]) = Inl (KeyError k_hash)"
proof -
  have s: "failedAt (spec_VerifyChain spliced_ledger) = Some (1, PrevHashMismatch)"
    by (simp add: spec_VerifyChain_def spec_replay_spliced)
  have r: "readable PrevHashMismatch (spliced_ledger ! 1)"
    by (simp add: readable_def spliced_ledger_def spliced_record_fields)
  have n: "failedAt (spec_VerifyChain no_hash_ledger) = Some (1, HashMismatch)"
    by (simp add: spec_VerifyChain_def spec_replay_no_hash)
  have m: "map_of (no_hash_ledger ! 1) k_hash = None"
    by (simp add: no_hash_ledger_def fields_B_def k_hash_def)
  then have q: "\<not> readable HashMismatch (no_hash_ledger ! 1)"
    by (simp add: readable_def)
  have k: "missing_key (no_hash_ledger ! 1) = k_hash"
    using m by (simp add: missing_key_def)
  note t = verify_chain_stops_at_first_offender [of spliced_ledger]
  note u = verify_chain_stops_at_first_offender [of no_hash_ledger]
  have f: "verify_chain spliced_ledger = Inr False"
    using t s r by blast
  have v: "\<not> valid (spec_VerifyChain spliced_ledger)"
    using t s by blast
  have p: "verify_chain (take 1 spliced_ledger) = Inr True"
    using t s by blast
  have l: "verify_chain (take (Suc 1) spliced_ledger @ [fields_B]) = Inr False"
    using t s r by blast
  have "verify_chain (take (Suc 1) no_hash_ledger @ [fields_B])
          = Inl (KeyError (missing_key (no_hash_ledger ! 1)))"
    using u n q by blast
  then have e: "verify_chain (take (Suc 1) no_hash_ledger @ [fields_B]) = Inl (KeyError k_hash)"
    by (simp only: k)
  from s r f v p l n q e show ?thesis by blast
qed

section \<open>The empty ledger\<close>

text \<open>
  C5 at the empty ledger: \<open>db.py\<close> reports the empty ledger before it ever calls
  \<open>verify_chain\<close>; \<open>E3.py\<close> calls its \<open>verify_chain\<close> on the empty list, which returns
  \<open>True\<close>, and shows the ledger as valid.
\<close>

theorem empty_ledger_shown_valid_by_E3:
  "integrity_E3 [] = Inr LedgerValid \<and> integrity_db [] = Inr EmptyLedger
   \<and> verify_chain_E3 [] = Inr True"
  by (simp add: integrity_E3_def integrity_db_def verify_chain_E3_def)

section \<open>Verification does not change the records\<close>

lemma length_after_pop [simp]: "length (after_pop r h) = Suc (length h)"
  by (simp add: after_pop_def pop_at_def split: option.splits)

lemma take_after_pop [simp]: "take (length h) (after_pop r h) = h"
  by (simp add: after_pop_def pop_at_def split: option.splits)

lemma nth_after_pop_old: "a < length h \<Longrightarrow> after_pop r h ! a = h ! a"
  by (simp add: after_pop_def pop_at_def nth_append split: option.splits)

lemma nth_after_pop_copy:
  "after_pop r h ! length h =
     (case map_of (h ! r) k_hash of None \<Rightarrow> h ! r | Some v \<Rightarrow> AList.delete k_hash (h ! r))"
  by (simp add: after_pop_def pop_at_def split: option.splits)

lemma verify_heap_Cons:
  "verify_heap prev (r # rs) h =
     (case map_of (h ! r) k_hash of
        None \<Rightarrow> (Inl (KeyError k_hash), after_pop r h)
      | Some stored_hash \<Rightarrow>
          (let calc_hash = digest prev (dumps (JObj (AList.delete k_hash (h ! r))))
           in if JStr (py calc_hash) \<noteq> stored_hash then (Inr False, after_pop r h)
              else (case getitem (AList.delete k_hash (h ! r)) k_prev_hash of
                      Inl e \<Rightarrow> (Inl e, after_pop r h)
                    | Inr p \<Rightarrow>
                        if p \<noteq> JStr (py prev) then (Inr False, after_pop r h)
                        else verify_heap calc_hash rs (after_pop r h))))"
  by (simp add: copy_def pop_at_def after_pop_def Let_def getitem_def split: option.splits)

lemma verify_heap_E3_Cons:
  "verify_heap_E3 prev (r # rs) h =
     (case map_of (h ! r) k_hash of
        None \<Rightarrow> (Inl (KeyError k_hash), after_pop r h)
      | Some stored_hash \<Rightarrow>
          (let new_hash = digest prev (dumps (JObj (AList.delete k_hash (h ! r))))
           in if JStr (py new_hash) \<noteq> stored_hash then (Inr False, after_pop r h)
              else verify_heap_E3 new_hash rs (after_pop r h)))"
  by (simp add: copy_def pop_at_def after_pop_def Let_def split: option.splits)

declare verify_heap.simps(2) [simp del] verify_heap_E3.simps(2) [simp del]

lemma take_take_heap:
  assumes "take (Suc (length h)) h' = after_pop r h"
  shows "take (length h) h' = h"
proof -
  have "take (length h) h' = take (length h) (take (Suc (length h)) h')"
    by (simp add: min_def)
  then show ?thesis
    using assms by simp
qed

lemma verify_heap_frame: "take (length h) (snd (verify_heap prev rs h)) = h"
proof (induction rs arbitrary: prev h)
  case Nil
  show ?case by simp
next
  case (Cons r rs)
  have "take (Suc (length h)) (snd (verify_heap p rs (after_pop r h))) = after_pop r h" for p
    using Cons.IH [of "after_pop r h" p] by simp
  then have rec: "take (length h) (snd (verify_heap p rs (after_pop r h))) = h" for p
    by (rule take_take_heap)
  show ?case
    by (simp add: verify_heap_Cons Let_def rec split: option.splits sum.splits)
qed

lemma verify_heap_E3_frame: "take (length h) (snd (verify_heap_E3 prev rs h)) = h"
proof (induction rs arbitrary: prev h)
  case Nil
  show ?case by simp
next
  case (Cons r rs)
  have "take (Suc (length h)) (snd (verify_heap_E3 p rs (after_pop r h))) = after_pop r h" for p
    using Cons.IH [of "after_pop r h" p] by simp
  then have rec: "take (length h) (snd (verify_heap_E3 p rs (after_pop r h))) = h" for p
    by (rule take_take_heap)
  show ?case
    by (simp add: verify_heap_E3_Cons Let_def rec split: option.splits sum.splits)
qed

lemma map_nth_after_pop:
  "\<forall>a \<in> set rs. a < length h \<Longrightarrow> map ((!) (after_pop r h)) rs = map ((!) h) rs"
  by (simp add: nth_after_pop_old)

lemma verify_heap_result:
  "\<forall>a \<in> set rs. a < length h \<Longrightarrow> fst (verify_heap prev rs h) = verify_from prev (map ((!) h) rs)"
proof (induction rs arbitrary: prev h)
  case Nil
  show ?case by simp
next
  case (Cons r rs)
  have old: "\<forall>a \<in> set rs. a < length (after_pop r h)"
    using Cons.prems by auto
  have m: "map ((!) (after_pop r h)) rs = map ((!) h) rs"
    using Cons.prems by (simp add: map_nth_after_pop)
  have rec: "fst (verify_heap p rs (after_pop r h)) = verify_from p (map ((!) h) rs)" for p
    using Cons.IH [OF old, of p] by (simp add: m)
  show ?case
    by (simp add: verify_heap_Cons verify_from.simps(2) pop_def Let_def rec
        split: option.splits sum.splits)
qed

lemma verify_heap_E3_result:
  "\<forall>a \<in> set rs. a < length h \<Longrightarrow>
     fst (verify_heap_E3 prev rs h) = verify_from_E3 prev (map ((!) h) rs)"
proof (induction rs arbitrary: prev h)
  case Nil
  show ?case by simp
next
  case (Cons r rs)
  have old: "\<forall>a \<in> set rs. a < length (after_pop r h)"
    using Cons.prems by auto
  have m: "map ((!) (after_pop r h)) rs = map ((!) h) rs"
    using Cons.prems by (simp add: map_nth_after_pop)
  have rec: "fst (verify_heap_E3 p rs (after_pop r h)) = verify_from_E3 p (map ((!) h) rs)" for p
    using Cons.IH [OF old, of p] by (simp add: m)
  show ?case
    by (simp add: verify_heap_E3_Cons verify_from_E3.simps(2) pop_def Let_def rec
        split: option.splits sum.splits)
qed

lemma nth_of_take: "take n xs = ys \<Longrightarrow> a < length ys \<Longrightarrow> xs ! a = ys ! a"
  by (metis length_take min_less_iff_conj nth_take)

text \<open>
  C9: verification is read-only. For every list of records in the heap, after
  \<open>verify_chain\<close> (of \<open>db.py\<close> and of \<open>E3.py\<close>) every object that was in the heap before
  the call is unchanged, so every record equals what it was; the \<open>hash\<close> key is popped
  from a copy. The result is the one \<open>verify_chain\<close> computes from the records' values.
\<close>

theorem verify_chain_read_only:
  assumes "\<forall>r \<in> set records. r < length h"
  shows "take (length h) (snd (verify_chain_heap records h)) = h
       \<and> map ((!) (snd (verify_chain_heap records h))) records = map ((!) h) records
       \<and> fst (verify_chain_heap records h) = verify_chain (map ((!) h) records)
       \<and> take (length h) (snd (verify_chain_heap_E3 records h)) = h
       \<and> map ((!) (snd (verify_chain_heap_E3 records h))) records = map ((!) h) records
       \<and> fst (verify_chain_heap_E3 records h) = verify_chain_E3 (map ((!) h) records)"
proof -
  have t: "take (length h) (snd (verify_chain_heap records h)) = h"
    by (simp add: verify_chain_heap_def verify_heap_frame)
  have t3: "take (length h) (snd (verify_chain_heap_E3 records h)) = h"
    by (simp add: verify_chain_heap_E3_def verify_heap_E3_frame)
  have m: "map ((!) (snd (verify_chain_heap records h))) records = map ((!) h) records"
    using assms nth_of_take [OF t] by simp
  have m3: "map ((!) (snd (verify_chain_heap_E3 records h))) records = map ((!) h) records"
    using assms nth_of_take [OF t3] by simp
  have r: "fst (verify_chain_heap records h) = verify_chain (map ((!) h) records)"
    using assms by (simp add: verify_chain_heap_def verify_chain_def verify_heap_result)
  have r3: "fst (verify_chain_heap_E3 records h) = verify_chain_E3 (map ((!) h) records)"
    using assms by (simp add: verify_chain_heap_E3_def verify_chain_E3_def verify_heap_E3_result)
  from t m r t3 m3 r3 show ?thesis by blast
qed

theorem verify_chain_read_only_witness:
  "0 < length [record_A] \<and> snd (verify_chain_heap [0] [record_A]) ! 0 = record_A
   \<and> fst (verify_chain_heap [0] [record_A]) = Inr True
   \<and> snd (verify_chain_heap_E3 [0] [record_A]) ! 0 = record_A"
proof -
  have a: "\<forall>r \<in> set [0]. r < length [record_A]" by simp
  have v: "verify_chain [record_A] = Inr True"
    by (simp add: verify_chain_def record_ok_step [OF record_A_ok])
  from verify_chain_read_only [OF a] v show ?thesis by simp
qed

section \<open>Canonical serialization\<close>

lemma filter_same_key:
  "distinct (map f xs) \<Longrightarrow> k \<in> set xs \<Longrightarrow> filter (\<lambda>x. f k = f x) xs = [k]"
proof (induction xs)
  case Nil
  then show ?case by simp
next
  case (Cons x xs)
  show ?case
  proof (cases "k = x")
    case True
    have "filter (\<lambda>y. f x = f y) xs = []"
      using Cons.prems(1) by (auto simp: filter_empty_conv)
    then show ?thesis using True by simp
  next
    case False
    then have k: "k \<in> set xs" using Cons.prems(2) by simp
    have "f x \<notin> set (map f xs)" using Cons.prems(1) by simp
    moreover have "f k \<in> set (map f xs)" using k by simp
    ultimately have "f k \<noteq> f x" by metis
    then show ?thesis using Cons.IH k Cons.prems(1) by simp
  qed
qed

lemma dumps_JObj_item:
  "dumps (JObj kvs) = ''{'' @ join '','' (map item (sort_key fst kvs)) @ ''}''"
proof -
  have "item = (\<lambda>(k, v). encode_basestring_ascii k @ '':'' @ dumps v)"
    by (auto simp: item_def fun_eq_iff)
  then show ?thesis by simp
qed

lemma sorted_items_unique:
  assumes d: "distinct (map f xs)" and m: "mset s = mset xs" and so: "sorted (map f s)"
  shows "sort_key f xs = s"
proof (rule properties_for_sort_key [OF m _ so])
  fix k assume k: "k \<in> set s"
  have "mset (map f xs) = mset (map f s)"
    using m by simp
  then have d': "distinct (map f s)"
    using d mset_eq_imp_distinct_iff by blast
  have kx: "k \<in> set xs"
    using k m mset_eq_setD by fastforce
  show "filter (\<lambda>x. f k = f x) s = filter (\<lambda>x. f k = f x) xs"
    using filter_same_key [OF d' k] filter_same_key [OF d kx] by simp
qed

lemma sorted_keys_agree:
  assumes "distinct (map fst a)" "distinct (map fst b)" "set (map fst a) = set (map fst b)"
  shows "map fst (sort_key fst a) = map fst (sort_key fst b)"
proof (rule sorted_distinct_set_unique)
  show "sorted (map fst (sort_key fst a))" "sorted (map fst (sort_key fst b))"
    by simp_all
  have "mset (map fst (sort_key fst a)) = mset (map fst a)" by simp
  then show "distinct (map fst (sort_key fst a))"
    using assms(1) mset_eq_imp_distinct_iff by blast
  have "mset (map fst (sort_key fst b)) = mset (map fst b)" by simp
  then show "distinct (map fst (sort_key fst b))"
    using assms(2) mset_eq_imp_distinct_iff by blast
  show "set (map fst (sort_key fst a)) = set (map fst (sort_key fst b))"
    using assms(3) by simp
qed

lemma map_eq_all2: "list_all2 (\<lambda>x y. f x = f y) xs ys \<Longrightarrow> map f xs = map f ys"
  by (induction rule: list_all2_induct) simp_all

lemma same_dumps: "same_up_to_order j1 j2 \<longrightarrow> dumps j1 = dumps j2"
proof (induction j1 j2 rule: same_up_to_order.induct)
  case (1 xs ys)
  show ?case
  proof
    assume "same_up_to_order (JArr xs) (JArr ys)"
    then have "list_all2 same_up_to_order xs ys" by simp
    then have "list_all2 (\<lambda>x y. dumps x = dumps y) xs ys"
      using "1.IH" by (auto simp: list_all2_conv_all_nth)
    then have "map dumps xs = map dumps ys"
      by (rule map_eq_all2)
    then show "dumps (JArr xs) = dumps (JArr ys)" by simp
  qed
next
  case (2 a b)
  show ?case
  proof
    assume s: "same_up_to_order (JObj a) (JObj b)"
    let ?A = "sort_key fst a" and ?B = "sort_key fst b"
    from s have da: "distinct (map fst a)" and db: "distinct (map fst b)"
      and ks: "set (map fst a) = set (map fst b)"
      and vs: "\<And>k v w. (k, v) \<in> set a \<Longrightarrow> (k, w) \<in> set b \<Longrightarrow> same_up_to_order v w"
      by auto
    have keys: "map fst ?A = map fst ?B"
      by (rule sorted_keys_agree [OF da db ks])
    then have len: "length ?A = length ?B"
      using map_eq_imp_length_eq by blast
    have "item (?A ! n) = item (?B ! n)" if n: "n < length ?A" for n
    proof -
      obtain k v where A: "?A ! n = (k, v)" by (cases "?A ! n")
      obtain k' w where B: "?B ! n = (k', w)" by (cases "?B ! n")
      have "fst (?A ! n) = fst (?B ! n)"
        using keys n len by (metis nth_map)
      then have kk: "k' = k" using A B by simp
      have ina: "(k, v) \<in> set a"
        using n A by (metis nth_mem set_sort)
      have inb: "(k, w) \<in> set b"
        using n len B kk by (metis nth_mem set_sort)
      have "dumps v = dumps w"
        using "2.IH" [OF ina refl inb refl refl] vs [OF ina inb] by blast
      then show ?thesis
        using A B kk by (simp add: item_def)
    qed
    then have "map item ?A = map item ?B"
      using len by (simp add: list_eq_iff_nth_eq)
    then show "dumps (JObj a) = dumps (JObj b)"
      by (simp only: dumps_JObj_item)
  qed
qed simp_all

lemma permuted_same:
  assumes d: "is_dict r1" and m: "mset r1 = mset r2" and v: "\<forall>x \<in> set r1. same_up_to_order (snd x) (snd x)"
  shows "same_up_to_order (JObj r1) (JObj r2)"
proof -
  have d1: "distinct (map fst r1)" using d by (simp add: is_dict_def)
  have "mset (map fst r1) = mset (map fst r2)" using m by simp
  then have d2: "distinct (map fst r2)"
    using d1 mset_eq_imp_distinct_iff by blast
  have st: "set r1 = set r2" using m by (rule mset_eq_setD)
  have "same_up_to_order v w" if "(k, v) \<in> set r1" "(k, w) \<in> set r2" for k v w
  proof -
    have "(k, w) \<in> set r1" using that(2) st by simp
    then have "v = w"
      using that(1) d1 by (meson eq_key_imp_eq_value)
    then show ?thesis using v that(1) by fastforce
  qed
  then show ?thesis
    using d1 d2 st by auto
qed

text \<open>
  C7: serialization and digest are deterministic. Two records that hold the same data,
  whatever the insertion order of their keys and of the keys of the objects nested in
  them, serialize to the same text and so hash to the same digest from the same
  \<open>prev_hash\<close>; a digest is 64 characters, each a lower-case hexadecimal digit. The text
  itself is \<open>{\<close>, the items in the sorted order of their keys, each written as key,
  \<open>:\<close>, value and separated by \<open>,\<close> from the next, and \<open>}\<close>, with nothing in between.
\<close>

theorem canonical_serialization_deterministic:
  assumes "same_up_to_order (JObj r1) (JObj r2)"
  shows "dumps (JObj r1) = dumps (JObj r2)
       \<and> digest prev (dumps (JObj r1)) = digest prev (dumps (JObj r2))
       \<and> length (digest prev (dumps (JObj r1))) = 64
       \<and> set (digest prev (dumps (JObj r1))) \<subseteq> set hexdigits
       \<and> (\<forall>s. mset s = mset r1 \<and> sorted (map fst s) \<longrightarrow>
             dumps (JObj r1) =
               ''{'' @ join '',''
                 (map (\<lambda>(k, v). encode_basestring_ascii k @ '':'' @ dumps v) s) @ ''}'')"
proof -
  have e: "dumps (JObj r1) = dumps (JObj r2)"
    using assms same_dumps by blast
  have h: "set (digest prev (dumps (JObj r1))) \<subseteq> set hexdigits"
    unfolding digest_def using sha256_hexdigest_chars by blast
  have d: "distinct (map fst r1)"
    using assms by simp
  have t: "dumps (JObj r1) =
             ''{'' @ join '',''
               (map (\<lambda>(k, v). encode_basestring_ascii k @ '':'' @ dumps v) s) @ ''}''"
    if "mset s = mset r1 \<and> sorted (map fst s)" for s
  proof -
    have "sort_key fst r1 = s"
      using that by (intro sorted_items_unique [OF d]) simp_all
    then show ?thesis by simp
  qed
  from e h t show ?thesis by simp
qed

theorem canonical_serialization_deterministic_witness:
  \<open>same_up_to_order (JObj nested_1) (JObj nested_2)
   \<and> same_up_to_order (JObj ab_fields) (JObj ba_fields)
   \<and> dumps (JObj nested_1) = dumps (JObj nested_2)
   \<and> dumps (JObj nested_1) = ''{"decision_id":"d1","top_shap_features":{"search":0.31,"views":2}}''
   \<and> dumps (JObj ab_fields) = ''{"a":[true,null],"b":2}''\<close>
proof -
  have n: "same_up_to_order (JObj nested_1) (JObj nested_2)"
    by code_simp
  have a: "same_up_to_order (JObj ab_fields) (JObj ba_fields)"
    by code_simp
  have v: \<open>dumps (JObj nested_2) = ''{"decision_id":"d1","top_shap_features":{"search":0.31,"views":2}}''\<close>
    by code_simp
  have w: \<open>dumps (JObj ba_fields) = ''{"a":[true,null],"b":2}''\<close>
    by code_simp
  from canonical_serialization_deterministic [OF n] canonical_serialization_deterministic [OF a]
    n a v w
  show ?thesis by simp
qed

section \<open>Tampering is detected\<close>

lemma accepted_record_ok:
  assumes "verify_chain rs = Inr True" and "i < length rs"
  shows "record_ok (expected_prev rs i) (rs ! i)"
proof -
  have "\<forall>i < length rs. record_ok (expected_prev rs i) (rs ! i)"
    using assms(1)
    unfolding verify_chain_def verify_from_chain chain_from_index expected_prev_eq .
  then show ?thesis using assms(2) by blast
qed

lemma verify_prefix_True:
  "verify_from prev (xs @ ys) = Inr True \<Longrightarrow> verify_from prev xs = Inr True"
  by (auto simp: verify_from_append split: sum.splits bool.splits)

lemma tip_expected_prev:
  "i < length rs \<Longrightarrow>
     (if take i rs = [] then genesis else stored_hash_str (last (take i rs))) = expected_prev rs i"
  by (cases i) (simp_all add: last_conv_nth take_Suc_conv_app_nth)

lemma tampered_step:
  assumes ok: "record_ok prev r" and f: "f \<noteq> k_hash"
    and ne: "digest prev (dumps (JObj (AList.delete k_hash (AList.update f v r))))
               \<noteq> digest prev (dumps (JObj (AList.delete k_hash r)))"
  shows "verify_from prev (AList.update f v r # rest) = Inr False"
proof -
  have "map_of (AList.update f v r) k_hash = map_of r k_hash"
    using f by (simp add: update_conv')
  then have h: "map_of (AList.update f v r) k_hash =
      Some (JStr (py (digest prev (dumps (JObj (AList.delete k_hash r))))))"
    using ok by (simp add: record_ok_def)
  show ?thesis
    using ne by (simp add: verify_from.simps(2) pop_def h)
qed

section \<open>Evaluating SHA-256\<close>

text \<open>
  Rules that compute the rotations, one round, the message schedule and one compression
  on numerals, every sum cut back to 32 bits, and the digests of the three texts that are
  hashed for the ledger \<open>w_ledger\<close> and its tampered copy.
\<close>

lemma drop_bit_of_nat32:
  "drop_bit n (word_of_nat m :: u32) = word_of_nat (take_bit 32 m div 2 ^ n)"
proof -
  have "drop_bit n (word_of_nat m :: u32) = word_of_nat (drop_bit n (take_bit 32 m))"
    by (rule bit_word_eqI) (auto simp: bit_simps)
  then show ?thesis by (simp add: drop_bit_eq_div)
qed

lemma push_bit_of_nat32:
  assumes "n \<le> 32"
  shows "push_bit (32 - n) (word_of_nat m :: u32) = word_of_nat ((m mod 2 ^ n) * 2 ^ (32 - n))"
proof -
  have "push_bit (32 - n) (word_of_nat m :: u32) = word_of_nat (push_bit (32 - n) (take_bit n m))"
    using assms by (intro bit_word_eqI) (auto simp: bit_simps)
  then show ?thesis by (simp add: push_bit_eq_mult take_bit_eq_mod)
qed

lemma rotr_numeral:
  "numeral n \<le> (32::nat) \<Longrightarrow> rotr (numeral n) (numeral k) =
     word_of_nat (take_bit 32 (numeral k) div 2 ^ numeral n)
       OR word_of_nat ((numeral k mod 2 ^ numeral n) * 2 ^ (32 - numeral n))"
  using drop_bit_of_nat32 [of "numeral n" "numeral k"] push_bit_of_nat32 [of "numeral n" "numeral k"]
  by (simp add: rotr_def)

lemma rotr_zero: "rotr n 0 = 0"
  by (simp add: rotr_def)

lemma rotr_one:
  "numeral n \<le> (32::nat) \<Longrightarrow> rotr (numeral n) 1 =
     word_of_nat (take_bit 32 1 div 2 ^ numeral n)
       OR word_of_nat ((1 mod 2 ^ numeral n) * 2 ^ (32 - numeral n))"
  using drop_bit_of_nat32 [of "numeral n" 1] push_bit_of_nat32 [of "numeral n" 1]
  by (simp add: rotr_def)

lemma mask32: "(x::u32) AND 0xFFFFFFFF = x"
proof -
  have "(0xFFFFFFFF::u32) = mask 32"
    by (simp add: mask_eq_exp_minus_1)
  then have "x AND 0xFFFFFFFF = take_bit 32 x"
    by (simp only: take_bit_eq_mask)
  moreover have "take_bit 32 x = x"
    by (rule take_bit_word_eq_self) simp
  ultimately show ?thesis by simp
qed

lemma round1_eval:
  "round1 (k, w) \<lparr>wa = a, wb = b, wc = c, wd = d, we = e, wf = f, wg = g, wh = h\<rparr> =
     (let t1 = (h + bsig1 e + Ch e f g + k + w) AND 0xFFFFFFFF;
          t2 = (bsig0 a + Maj a b c) AND 0xFFFFFFFF
      in \<lparr>wa = (t1 + t2) AND 0xFFFFFFFF, wb = a, wc = b, wd = c,
          we = (d + t1) AND 0xFFFFFFFF, wf = e, wg = f, wh = g\<rparr>)"
  by (simp add: round1_def mask32)

lemma schedule_eval:
  "schedule (numeral n) win =
     (let w = (ssig1 (win ! 14) + win ! 9 + ssig0 (win ! 1) + win ! 0) AND 0xFFFFFFFF
      in w # schedule (pred_numeral n) (tl win @ [w]))"
  by (simp add: numeral_eq_Suc mask32)

lemma compress_eval:
  "compress \<lparr>wa = a, wb = b, wc = c, wd = d, we = e, wf = f, wg = g, wh = h\<rparr> blk =
     (let s = \<lparr>wa = a, wb = b, wc = c, wd = d, we = e, wf = f, wg = g, wh = h\<rparr>;
          r = fold round1 (zip K256 (blk @ schedule 48 blk)) s
      in \<lparr>wa = (a + wa r) AND 0xFFFFFFFF, wb = (b + wb r) AND 0xFFFFFFFF,
          wc = (c + wc r) AND 0xFFFFFFFF, wd = (d + wd r) AND 0xFFFFFFFF,
          we = (e + we r) AND 0xFFFFFFFF, wf = (f + wf r) AND 0xFFFFFFFF,
          wg = (g + wg r) AND 0xFFFFFFFF, wh = (h + wh r) AND 0xFFFFFFFF\<rparr>)"
  by (simp add: compress_def mask32 Let_def)

lemmas sha_evals = round1_eval schedule_eval compress_eval rotr_numeral rotr_zero rotr_one
  bsig0_def bsig1_def ssig0_def ssig1_def Ch_def Maj_def

lemma blocks_numeral:
  "blocks (numeral n) ws s = blocks (pred_numeral n) (drop 16 ws) (compress s (take 16 ws))"
  by (simp add: numeral_eq_Suc)

lemma compress_1:
  "compress \<lparr>wa = 0x6A09E667, wb = 0xBB67AE85, wc = 0x3C6EF372, wd = 0xA54FF53A, we = 0x510E527F, wf = 0x9B05688C, wg = 0x1F83D9AB, wh = 0x5BE0CD19\<rparr>
     [0x30303030, 0x30303030, 0x30303030, 0x30303030, 0x30303030, 0x30303030, 0x30303030, 0x30303030,
     0x30303030, 0x30303030, 0x30303030, 0x30303030, 0x30303030, 0x30303030, 0x30303030, 0x30303030] =
   \<lparr>wa = 0x16C81D26, wb = 0xFDB2174A, wc = 0xD75F6E8A, wd = 0xF562D3EF, we = 0xB33C1CE7, wf = 0x1E4BCF51, wg = 0x01E4CAFD, wh = 0x36F002E0\<rparr>"
  by (simp add: sha_evals K256_def Let_def cong: let_weak_cong)

lemma compress_2:
  "compress \<lparr>wa = 0x16C81D26, wb = 0xFDB2174A, wc = 0xD75F6E8A, wd = 0xF562D3EF, we = 0xB33C1CE7, wf = 0x1E4BCF51, wg = 0x01E4CAFD, wh = 0x36F002E0\<rparr>
     [0x7B226465, 0x63697369, 0x6F6E5F69, 0x64223A22, 0x6431222C, 0x22707265, 0x765F6861, 0x7368223A,
     0x22303030, 0x30303030, 0x30303030, 0x30303030, 0x30303030, 0x30303030, 0x30303030, 0x30303030] =
   \<lparr>wa = 0x8E4846E5, wb = 0x452E9D93, wc = 0xFA2E7DED, wd = 0x0EBCFE57, we = 0x878F636B, wf = 0x1070F522, wg = 0xFC024E61, wh = 0xF38BD086\<rparr>"
  by (simp add: sha_evals K256_def Let_def cong: let_weak_cong)

lemma compress_3:
  "compress \<lparr>wa = 0x8E4846E5, wb = 0x452E9D93, wc = 0xFA2E7DED, wd = 0x0EBCFE57, we = 0x878F636B, wf = 0x1070F522, wg = 0xFC024E61, wh = 0xF38BD086\<rparr>
     [0x30303030, 0x30303030, 0x30303030, 0x30303030, 0x30303030, 0x30303030, 0x30303030, 0x30303030,
     0x30227D80, 0x00000000, 0x00000000, 0x00000000, 0x00000000, 0x00000000, 0x00000000, 0x00000518] =
   \<lparr>wa = 0xA1E007D2, wb = 0x05262934, wc = 0x2553E8B0, wd = 0x8723CCCD, we = 0x2C545417, wf = 0x3F583686, wg = 0xE968E2B8, wh = 0x0823D8DB\<rparr>"
  by (simp add: sha_evals K256_def Let_def cong: let_weak_cong)

lemma compress_4:
  "compress \<lparr>wa = 0x6A09E667, wb = 0xBB67AE85, wc = 0x3C6EF372, wd = 0xA54FF53A, we = 0x510E527F, wf = 0x9B05688C, wg = 0x1F83D9AB, wh = 0x5BE0CD19\<rparr>
     [0x61316530, 0x30376432, 0x30353236, 0x32393334, 0x32353533, 0x65386230, 0x38373233, 0x63636364,
     0x32633534, 0x35343137, 0x33663538, 0x33363836, 0x65393638, 0x65326238, 0x30383233, 0x64386462] =
   \<lparr>wa = 0xAD9E2911, wb = 0xA0C9D487, wc = 0x530D1EBD, wd = 0xF441116D, we = 0xD23EE3D3, wf = 0xF9C2148E, wg = 0x19EE39A4, wh = 0x54F4B4D8\<rparr>"
  by (simp add: sha_evals K256_def Let_def cong: let_weak_cong)

lemma compress_5:
  "compress \<lparr>wa = 0xAD9E2911, wb = 0xA0C9D487, wc = 0x530D1EBD, wd = 0xF441116D, we = 0xD23EE3D3, wf = 0xF9C2148E, wg = 0x19EE39A4, wh = 0x54F4B4D8\<rparr>
     [0x7B227072, 0x65646963, 0x7465645F, 0x70726F62, 0x6162696C, 0x69747922, 0x3A302E38, 0x322C2270,
     0x7265765F, 0x68617368, 0x223A2261, 0x31653030, 0x37643230, 0x35323632, 0x39333432, 0x35353365] =
   \<lparr>wa = 0x864E53E1, wb = 0xA18A7D1C, wc = 0x33F63CAF, wd = 0x746042C8, we = 0x5EA73D7D, wf = 0x8E0462CC, wg = 0x186C7FBD, wh = 0x82DA05B4\<rparr>"
  by (simp add: sha_evals K256_def Let_def cong: let_weak_cong)

lemma compress_6:
  "compress \<lparr>wa = 0x864E53E1, wb = 0xA18A7D1C, wc = 0x33F63CAF, wd = 0x746042C8, we = 0x5EA73D7D, wf = 0x8E0462CC, wg = 0x186C7FBD, wh = 0x82DA05B4\<rparr>
     [0x38623038, 0x37323363, 0x63636432, 0x63353435, 0x34313733, 0x66353833, 0x36383665, 0x39363865,
     0x32623830, 0x38323364, 0x38646222, 0x7D800000, 0x00000000, 0x00000000, 0x00000000, 0x00000568] =
   \<lparr>wa = 0x1ADD6D36, wb = 0xADC885AC, wc = 0xB09D68C5, wd = 0xFB082E7D, we = 0x87014142, wf = 0x70FE4D74, wg = 0xEB7CF73C, wh = 0x1572F2C1\<rparr>"
  by (simp add: sha_evals K256_def Let_def cong: let_weak_cong)

lemma compress_7:
  "compress \<lparr>wa = 0xAD9E2911, wb = 0xA0C9D487, wc = 0x530D1EBD, wd = 0xF441116D, we = 0xD23EE3D3, wf = 0xF9C2148E, wg = 0x19EE39A4, wh = 0x54F4B4D8\<rparr>
     [0x7B227072, 0x65646963, 0x7465645F, 0x70726F62, 0x6162696C, 0x69747922, 0x3A302E39, 0x392C2270,
     0x7265765F, 0x68617368, 0x223A2261, 0x31653030, 0x37643230, 0x35323632, 0x39333432, 0x35353365] =
   \<lparr>wa = 0x626D3CC0, wb = 0x6682CB0D, wc = 0xA3BB4E1E, wd = 0x9CEA76B0, we = 0x473BAB60, wf = 0xDDD320FF, wg = 0x4C60F539, wh = 0xE621666B\<rparr>"
  by (simp add: sha_evals K256_def Let_def cong: let_weak_cong)

lemma compress_8:
  "compress \<lparr>wa = 0x626D3CC0, wb = 0x6682CB0D, wc = 0xA3BB4E1E, wd = 0x9CEA76B0, we = 0x473BAB60, wf = 0xDDD320FF, wg = 0x4C60F539, wh = 0xE621666B\<rparr>
     [0x38623038, 0x37323363, 0x63636432, 0x63353435, 0x34313733, 0x66353833, 0x36383665, 0x39363865,
     0x32623830, 0x38323364, 0x38646222, 0x7D800000, 0x00000000, 0x00000000, 0x00000000, 0x00000568] =
   \<lparr>wa = 0xDD27FEB0, wb = 0xEB80F7BF, wc = 0xAE883826, wd = 0xD9E6111C, we = 0x35F9EBA0, wf = 0xDCE2581F, wg = 0x383EC63D, wh = 0xA6FF1177\<rparr>"
  by (simp add: sha_evals K256_def Let_def cong: let_weak_cong)

lemma sha_first:
  \<open>sha256_hexdigest (utf8_encode ''0000000000000000000000000000000000000000000000000000000000000000{"decision_id":"d1","prev_hash":"0000000000000000000000000000000000000000000000000000000000000000"}'') =
     ''a1e007d2052629342553e8b08723cccd2c5454173f583686e968e2b80823d8db''\<close>
proof -
  have w: \<open>be_words (pad (utf8_encode ''0000000000000000000000000000000000000000000000000000000000000000{"decision_id":"d1","prev_hash":"0000000000000000000000000000000000000000000000000000000000000000"}'')) =
     [0x30303030, 0x30303030, 0x30303030, 0x30303030, 0x30303030, 0x30303030, 0x30303030, 0x30303030,
     0x30303030, 0x30303030, 0x30303030, 0x30303030, 0x30303030, 0x30303030, 0x30303030, 0x30303030,
     0x7B226465, 0x63697369, 0x6F6E5F69, 0x64223A22, 0x6431222C, 0x22707265, 0x765F6861, 0x7368223A,
     0x22303030, 0x30303030, 0x30303030, 0x30303030, 0x30303030, 0x30303030, 0x30303030, 0x30303030,
     0x30303030, 0x30303030, 0x30303030, 0x30303030, 0x30303030, 0x30303030, 0x30303030, 0x30303030,
     0x30227D80, 0x00000000, 0x00000000, 0x00000000, 0x00000000, 0x00000000, 0x00000000, 0x00000518]\<close>
    by code_simp
  have b: "blocks 3
     [0x30303030, 0x30303030, 0x30303030, 0x30303030, 0x30303030, 0x30303030, 0x30303030, 0x30303030,
     0x30303030, 0x30303030, 0x30303030, 0x30303030, 0x30303030, 0x30303030, 0x30303030, 0x30303030,
     0x7B226465, 0x63697369, 0x6F6E5F69, 0x64223A22, 0x6431222C, 0x22707265, 0x765F6861, 0x7368223A,
     0x22303030, 0x30303030, 0x30303030, 0x30303030, 0x30303030, 0x30303030, 0x30303030, 0x30303030,
     0x30303030, 0x30303030, 0x30303030, 0x30303030, 0x30303030, 0x30303030, 0x30303030, 0x30303030,
     0x30227D80, 0x00000000, 0x00000000, 0x00000000, 0x00000000, 0x00000000, 0x00000000, 0x00000518] H256 =
     \<lparr>wa = 0xA1E007D2, wb = 0x05262934, wc = 0x2553E8B0, wd = 0x8723CCCD, we = 0x2C545417, wf = 0x3F583686, wg = 0xE968E2B8, wh = 0x0823D8DB\<rparr>"
    by (simp add: blocks_numeral H256_def compress_1 compress_2 compress_3)
  have h: "concat (map hex32 [0xA1E007D2, 0x05262934, 0x2553E8B0, 0x8723CCCD, 0x2C545417, 0x3F583686, 0xE968E2B8, 0x0823D8DB]) =
     ''a1e007d2052629342553e8b08723cccd2c5454173f583686e968e2b80823d8db''"
    by code_simp
  have s: \<open>sha256 (utf8_encode ''0000000000000000000000000000000000000000000000000000000000000000{"decision_id":"d1","prev_hash":"0000000000000000000000000000000000000000000000000000000000000000"}'') =
     [0xA1E007D2, 0x05262934, 0x2553E8B0, 0x8723CCCD, 0x2C545417, 0x3F583686, 0xE968E2B8, 0x0823D8DB]\<close>
    by (simp add: sha256_def w b)
  show ?thesis
    by (simp only: sha256_hexdigest_def s h)
qed

lemma sha_second:
  \<open>sha256_hexdigest (utf8_encode ''a1e007d2052629342553e8b08723cccd2c5454173f583686e968e2b80823d8db{"predicted_probability":0.82,"prev_hash":"a1e007d2052629342553e8b08723cccd2c5454173f583686e968e2b80823d8db"}'') =
     ''1add6d36adc885acb09d68c5fb082e7d8701414270fe4d74eb7cf73c1572f2c1''\<close>
proof -
  have w: \<open>be_words (pad (utf8_encode ''a1e007d2052629342553e8b08723cccd2c5454173f583686e968e2b80823d8db{"predicted_probability":0.82,"prev_hash":"a1e007d2052629342553e8b08723cccd2c5454173f583686e968e2b80823d8db"}'')) =
     [0x61316530, 0x30376432, 0x30353236, 0x32393334, 0x32353533, 0x65386230, 0x38373233, 0x63636364,
     0x32633534, 0x35343137, 0x33663538, 0x33363836, 0x65393638, 0x65326238, 0x30383233, 0x64386462,
     0x7B227072, 0x65646963, 0x7465645F, 0x70726F62, 0x6162696C, 0x69747922, 0x3A302E38, 0x322C2270,
     0x7265765F, 0x68617368, 0x223A2261, 0x31653030, 0x37643230, 0x35323632, 0x39333432, 0x35353365,
     0x38623038, 0x37323363, 0x63636432, 0x63353435, 0x34313733, 0x66353833, 0x36383665, 0x39363865,
     0x32623830, 0x38323364, 0x38646222, 0x7D800000, 0x00000000, 0x00000000, 0x00000000, 0x00000568]\<close>
    by code_simp
  have b: "blocks 3
     [0x61316530, 0x30376432, 0x30353236, 0x32393334, 0x32353533, 0x65386230, 0x38373233, 0x63636364,
     0x32633534, 0x35343137, 0x33663538, 0x33363836, 0x65393638, 0x65326238, 0x30383233, 0x64386462,
     0x7B227072, 0x65646963, 0x7465645F, 0x70726F62, 0x6162696C, 0x69747922, 0x3A302E38, 0x322C2270,
     0x7265765F, 0x68617368, 0x223A2261, 0x31653030, 0x37643230, 0x35323632, 0x39333432, 0x35353365,
     0x38623038, 0x37323363, 0x63636432, 0x63353435, 0x34313733, 0x66353833, 0x36383665, 0x39363865,
     0x32623830, 0x38323364, 0x38646222, 0x7D800000, 0x00000000, 0x00000000, 0x00000000, 0x00000568] H256 =
     \<lparr>wa = 0x1ADD6D36, wb = 0xADC885AC, wc = 0xB09D68C5, wd = 0xFB082E7D, we = 0x87014142, wf = 0x70FE4D74, wg = 0xEB7CF73C, wh = 0x1572F2C1\<rparr>"
    by (simp add: blocks_numeral H256_def compress_4 compress_5 compress_6)
  have h: "concat (map hex32 [0x1ADD6D36, 0xADC885AC, 0xB09D68C5, 0xFB082E7D, 0x87014142, 0x70FE4D74, 0xEB7CF73C, 0x1572F2C1]) =
     ''1add6d36adc885acb09d68c5fb082e7d8701414270fe4d74eb7cf73c1572f2c1''"
    by code_simp
  have s: \<open>sha256 (utf8_encode ''a1e007d2052629342553e8b08723cccd2c5454173f583686e968e2b80823d8db{"predicted_probability":0.82,"prev_hash":"a1e007d2052629342553e8b08723cccd2c5454173f583686e968e2b80823d8db"}'') =
     [0x1ADD6D36, 0xADC885AC, 0xB09D68C5, 0xFB082E7D, 0x87014142, 0x70FE4D74, 0xEB7CF73C, 0x1572F2C1]\<close>
    by (simp add: sha256_def w b)
  show ?thesis
    by (simp only: sha256_hexdigest_def s h)
qed

lemma sha_second_tampered:
  \<open>sha256_hexdigest (utf8_encode ''a1e007d2052629342553e8b08723cccd2c5454173f583686e968e2b80823d8db{"predicted_probability":0.99,"prev_hash":"a1e007d2052629342553e8b08723cccd2c5454173f583686e968e2b80823d8db"}'') =
     ''dd27feb0eb80f7bfae883826d9e6111c35f9eba0dce2581f383ec63da6ff1177''\<close>
proof -
  have w: \<open>be_words (pad (utf8_encode ''a1e007d2052629342553e8b08723cccd2c5454173f583686e968e2b80823d8db{"predicted_probability":0.99,"prev_hash":"a1e007d2052629342553e8b08723cccd2c5454173f583686e968e2b80823d8db"}'')) =
     [0x61316530, 0x30376432, 0x30353236, 0x32393334, 0x32353533, 0x65386230, 0x38373233, 0x63636364,
     0x32633534, 0x35343137, 0x33663538, 0x33363836, 0x65393638, 0x65326238, 0x30383233, 0x64386462,
     0x7B227072, 0x65646963, 0x7465645F, 0x70726F62, 0x6162696C, 0x69747922, 0x3A302E39, 0x392C2270,
     0x7265765F, 0x68617368, 0x223A2261, 0x31653030, 0x37643230, 0x35323632, 0x39333432, 0x35353365,
     0x38623038, 0x37323363, 0x63636432, 0x63353435, 0x34313733, 0x66353833, 0x36383665, 0x39363865,
     0x32623830, 0x38323364, 0x38646222, 0x7D800000, 0x00000000, 0x00000000, 0x00000000, 0x00000568]\<close>
    by code_simp
  have b: "blocks 3
     [0x61316530, 0x30376432, 0x30353236, 0x32393334, 0x32353533, 0x65386230, 0x38373233, 0x63636364,
     0x32633534, 0x35343137, 0x33663538, 0x33363836, 0x65393638, 0x65326238, 0x30383233, 0x64386462,
     0x7B227072, 0x65646963, 0x7465645F, 0x70726F62, 0x6162696C, 0x69747922, 0x3A302E39, 0x392C2270,
     0x7265765F, 0x68617368, 0x223A2261, 0x31653030, 0x37643230, 0x35323632, 0x39333432, 0x35353365,
     0x38623038, 0x37323363, 0x63636432, 0x63353435, 0x34313733, 0x66353833, 0x36383665, 0x39363865,
     0x32623830, 0x38323364, 0x38646222, 0x7D800000, 0x00000000, 0x00000000, 0x00000000, 0x00000568] H256 =
     \<lparr>wa = 0xDD27FEB0, wb = 0xEB80F7BF, wc = 0xAE883826, wd = 0xD9E6111C, we = 0x35F9EBA0, wf = 0xDCE2581F, wg = 0x383EC63D, wh = 0xA6FF1177\<rparr>"
    by (simp add: blocks_numeral H256_def compress_4 compress_7 compress_8)
  have h: "concat (map hex32 [0xDD27FEB0, 0xEB80F7BF, 0xAE883826, 0xD9E6111C, 0x35F9EBA0, 0xDCE2581F, 0x383EC63D, 0xA6FF1177]) =
     ''dd27feb0eb80f7bfae883826d9e6111c35f9eba0dce2581f383ec63da6ff1177''"
    by code_simp
  have s: \<open>sha256 (utf8_encode ''a1e007d2052629342553e8b08723cccd2c5454173f583686e968e2b80823d8db{"predicted_probability":0.99,"prev_hash":"a1e007d2052629342553e8b08723cccd2c5454173f583686e968e2b80823d8db"}'') =
     [0xDD27FEB0, 0xEB80F7BF, 0xAE883826, 0xD9E6111C, 0x35F9EBA0, 0xDCE2581F, 0x383EC63D, 0xA6FF1177]\<close>
    by (simp add: sha256_def w b)
  show ?thesis
    by (simp only: sha256_hexdigest_def s h)
qed


lemma delete_hash_seal:
  assumes "k_hash \<notin> fst ` set flds"
  shows "AList.delete k_hash (seal tail flds) = AList.update k_prev_hash (JStr (py tail)) flds"
proof -
  have "k_hash \<notin> fst ` set (AList.update k_prev_hash (JStr (py tail)) flds)"
    using assms by (simp add: dom_update)
  then show ?thesis
    by (simp add: seal_def Let_def delete_update_same)
qed

lemma w_keys: "k_hash \<notin> fst ` set w0_fields" "k_hash \<notin> fst ` set w1_fields" "w_key \<noteq> k_hash"
  by (simp_all add: w0_fields_def w1_fields_def w_key_def k_hash_def)

lemma w0_hash:
  "stored_hash_str w0_record = ''a1e007d2052629342553e8b08723cccd2c5454173f583686e968e2b80823d8db''"
proof -
  have t: \<open>genesis @ dumps (JObj (AList.update k_prev_hash (JStr (py genesis)) w0_fields)) =
      ''0000000000000000000000000000000000000000000000000000000000000000{"decision_id":"d1","prev_hash":"0000000000000000000000000000000000000000000000000000000000000000"}''\<close>
    by code_simp
  show ?thesis
    unfolding w0_record_def stored_hash_seal digest_def t by (rule sha_first)
qed

lemma w1_bodies:
  \<open>dumps (JObj (AList.update k_prev_hash (JStr (py ''a1e007d2052629342553e8b08723cccd2c5454173f583686e968e2b80823d8db'')) w1_fields)) =
     ''{"predicted_probability":0.82,"prev_hash":"a1e007d2052629342553e8b08723cccd2c5454173f583686e968e2b80823d8db"}''\<close>
  \<open>dumps (JObj (AList.update w_key (JFloat ''0.99'')
       (AList.update k_prev_hash (JStr (py ''a1e007d2052629342553e8b08723cccd2c5454173f583686e968e2b80823d8db'')) w1_fields))) =
     ''{"predicted_probability":0.99,"prev_hash":"a1e007d2052629342553e8b08723cccd2c5454173f583686e968e2b80823d8db"}''\<close>
  by code_simp+

lemma w1_deleted:
  "AList.delete k_hash w1_record =
     AList.update k_prev_hash (JStr (py ''a1e007d2052629342553e8b08723cccd2c5454173f583686e968e2b80823d8db'')) w1_fields"
  "AList.delete k_hash (AList.update w_key v w1_record) =
     AList.update w_key v (AList.update k_prev_hash (JStr (py ''a1e007d2052629342553e8b08723cccd2c5454173f583686e968e2b80823d8db'')) w1_fields)"
proof -
  show a: "AList.delete k_hash w1_record =
     AList.update k_prev_hash (JStr (py ''a1e007d2052629342553e8b08723cccd2c5454173f583686e968e2b80823d8db'')) w1_fields"
    by (simp add: w1_record_def delete_hash_seal [OF w_keys(2)] w0_hash)
  show "AList.delete k_hash (AList.update w_key v w1_record) =
     AList.update w_key v (AList.update k_prev_hash (JStr (py ''a1e007d2052629342553e8b08723cccd2c5454173f583686e968e2b80823d8db'')) w1_fields)"
    using w_keys(3) by (simp add: delete_update a)
qed

lemma w_ledger_accepted: "verify_chain w_ledger = Inr True"
proof -
  have o0: "record_ok genesis w0_record"
    unfolding w0_record_def by (rule record_ok_seal [OF w_keys(1)])
  have o1: "record_ok (stored_hash_str w0_record) w1_record"
    unfolding w1_record_def by (rule record_ok_seal [OF w_keys(2)])
  show ?thesis
    by (simp add: verify_chain_def w_ledger_def record_ok_step [OF o0] record_ok_step [OF o1])
qed

text \<open>
  C3: on every ledger that \<open>verify_chain\<close> accepts, setting a field other than \<open>hash\<close> of
  record \<open>i\<close> to a value that changes the record's canonical serialization makes
  \<open>verify_chain\<close> return \<open>False\<close>, provided SHA-256 does not collide on the two texts
  hashed for record \<open>i\<close>, before and after. The records before \<open>i\<close> still pass and the
  check fails at record \<open>i\<close> itself: the first failing position is \<open>i\<close>.
\<close>

theorem single_field_tamper_detected:
  assumes acc: "verify_chain rs = Inr True" and i: "i < length rs" and f: "f \<noteq> k_hash"
    and changed: "dumps (JObj (AList.delete k_hash (AList.update f v (rs ! i))))
                    \<noteq> dumps (JObj (AList.delete k_hash (rs ! i)))"
    and cf: "collision_free_on
               {hash_input (expected_prev rs i) (rs ! i),
                hash_input (expected_prev rs i) (AList.update f v (rs ! i))}"
  shows "verify_chain (tamper i f v rs) = Inr False
       \<and> verify_chain (take i (tamper i f v rs)) = Inr True
       \<and> verify_chain (take (Suc i) (tamper i f v rs)) = Inr False"
proof -
  let ?p = "expected_prev rs i"
  let ?r' = "AList.update f v (rs ! i)"
  have ok: "record_ok ?p (rs ! i)"
    by (rule accepted_record_ok [OF acc i])
  have split: "rs = take i rs @ rs ! i # drop (Suc i) rs"
    using i by (simp add: id_take_nth_drop)
  have t: "tamper i f v rs = take i rs @ ?r' # drop (Suc i) rs"
    using i by (simp add: tamper_def upd_conv_take_nth_drop)
  have "verify_from genesis (take i rs @ rs ! i # drop (Suc i) rs) = Inr True"
    using acc split by (simp add: verify_chain_def)
  then have pre: "verify_from genesis (take i rs) = Inr True"
    by (rule verify_prefix_True)
  have "hash_input ?p ?r' \<noteq> hash_input ?p (rs ! i)"
    using changed by (simp add: hash_input_def)
  then have ne: "digest ?p (dumps (JObj (AList.delete k_hash ?r')))
                   \<noteq> digest ?p (dumps (JObj (AList.delete k_hash (rs ! i))))"
    using cf by (auto simp: collision_free_on_def inj_on_def digest_def hash_input_def)
  have bad: "verify_from ?p (?r' # rest) = Inr False" for rest
    by (rule tampered_step [OF ok f ne])
  have tip: "(if take i rs = [] then genesis else stored_hash_str (last (take i rs))) = ?p"
    by (rule tip_expected_prev [OF i])
  have whole: "verify_from genesis (take i rs @ ?r' # rest) = Inr False" for rest
    by (simp only: verify_from_append pre tip bad sum.case bool.case)
  have a: "verify_chain (tamper i f v rs) = Inr False"
    by (simp add: verify_chain_def t whole)
  have b: "verify_chain (take i (tamper i f v rs)) = Inr True"
    using i by (simp add: verify_chain_def t pre)
  have "take (Suc i) (tamper i f v rs) = take i rs @ [?r']"
    using i by (simp add: t)
  then have c: "verify_chain (take (Suc i) (tamper i f v rs)) = Inr False"
    by (simp add: verify_chain_def whole)
  from a b c show ?thesis by blast
qed

theorem single_field_tamper_detected_witness:
  "verify_chain w_ledger = Inr True \<and> Suc 0 < length w_ledger \<and> w_key \<noteq> k_hash
   \<and> dumps (JObj (AList.delete k_hash (AList.update w_key (JFloat ''0.99'') (w_ledger ! Suc 0))))
        \<noteq> dumps (JObj (AList.delete k_hash (w_ledger ! Suc 0)))
   \<and> collision_free_on
        {hash_input (expected_prev w_ledger (Suc 0)) (w_ledger ! Suc 0),
         hash_input (expected_prev w_ledger (Suc 0))
           (AList.update w_key (JFloat ''0.99'') (w_ledger ! Suc 0))}
   \<and> verify_chain (tamper (Suc 0) w_key (JFloat ''0.99'') w_ledger) = Inr False
   \<and> verify_chain (take (Suc 0) (tamper (Suc 0) w_key (JFloat ''0.99'') w_ledger)) = Inr True
   \<and> verify_chain (take (Suc (Suc 0)) (tamper (Suc 0) w_key (JFloat ''0.99'') w_ledger))
        = Inr False"
proof -
  have i: "Suc 0 < length w_ledger"
    by (simp add: w_ledger_def)
  have r: "w_ledger ! Suc 0 = w1_record"
    by (simp add: w_ledger_def)
  have e: "expected_prev w_ledger (Suc 0) = ''a1e007d2052629342553e8b08723cccd2c5454173f583686e968e2b80823d8db''"
    by (simp add: w_ledger_def w0_hash)
  have changed: "dumps (JObj (AList.delete k_hash
                   (AList.update w_key (JFloat ''0.99'') (w_ledger ! Suc 0))))
        \<noteq> dumps (JObj (AList.delete k_hash (w_ledger ! Suc 0)))"
    unfolding r w1_deleted w1_bodies by simp
  have hi: \<open>hash_input (expected_prev w_ledger (Suc 0)) (w_ledger ! Suc 0) =
      ''a1e007d2052629342553e8b08723cccd2c5454173f583686e968e2b80823d8db{"predicted_probability":0.82,"prev_hash":"a1e007d2052629342553e8b08723cccd2c5454173f583686e968e2b80823d8db"}''\<close>
    unfolding hash_input_def r e w1_deleted w1_bodies by simp
  have hit: \<open>hash_input (expected_prev w_ledger (Suc 0))
        (AList.update w_key (JFloat ''0.99'') (w_ledger ! Suc 0)) =
      ''a1e007d2052629342553e8b08723cccd2c5454173f583686e968e2b80823d8db{"predicted_probability":0.99,"prev_hash":"a1e007d2052629342553e8b08723cccd2c5454173f583686e968e2b80823d8db"}''\<close>
    unfolding hash_input_def r e w1_deleted w1_bodies by simp
  have ne: \<open>sha256_hexdigest (utf8_encode ''a1e007d2052629342553e8b08723cccd2c5454173f583686e968e2b80823d8db{"predicted_probability":0.82,"prev_hash":"a1e007d2052629342553e8b08723cccd2c5454173f583686e968e2b80823d8db"}'')
      \<noteq> sha256_hexdigest (utf8_encode ''a1e007d2052629342553e8b08723cccd2c5454173f583686e968e2b80823d8db{"predicted_probability":0.99,"prev_hash":"a1e007d2052629342553e8b08723cccd2c5454173f583686e968e2b80823d8db"}'')\<close>
    unfolding sha_second sha_second_tampered by simp
  have cf: "collision_free_on
        {hash_input (expected_prev w_ledger (Suc 0)) (w_ledger ! Suc 0),
         hash_input (expected_prev w_ledger (Suc 0))
           (AList.update w_key (JFloat ''0.99'') (w_ledger ! Suc 0))}"
    unfolding hi hit collision_free_on_def using ne by (auto simp: inj_on_def)
  from single_field_tamper_detected [OF w_ledger_accepted i w_keys(3) changed cf]
    w_ledger_accepted i w_keys(3) changed cf
  show ?thesis by blast
qed

end
